theory Spec2Isabelle
  imports Main "HOL-Library.Multiset" "HOL-Library.Char_ord" "HOL-Library.List_Lexorder"
begin

section \<open>Run-time failures\<close>

text \<open>
  The Go code has no error returns; what it can do besides returning is panic. A function
  that can panic returns \<open>panic + 'a\<close>, with \<open>Inl\<close> for the panic.
\<close>

datatype panic = NilDereference | IndexOutOfRange

section \<open>Data model (root.go, file_server.go)\<close>

text \<open>
  Pointers to attributes are addresses into a store of attributes: a list, where the
  address of an attribute is its index and allocation appends. A pointer field that may
  be \<open>nil\<close> is an \<open>option\<close>.
\<close>

type_synonym addr = nat

text \<open>
  Modelled from the spec: the declarations of \<open>design.AttributeExpr\<close> and
  \<open>design.Object\<close> are not part of these sources. An attribute has a type; an object type
  is the list of its named fields, and \<open>&design.Object{}\<close> is the object with no fields.
\<close>

datatype DataType = Primitive string | Object "(string \<times> AttributeExpr) list"
and AttributeExpr = AttributeExpr (Type: DataType)

text \<open>
  \<open>FileServerExpr\<close>. \<open>Service\<close> is the back-reference to the owning service: an address
  into a store of services, \<open>None\<close> for \<open>nil\<close>. \<open>Docs\<close> and \<open>Metadata\<close> are read by
  none of the functions below and are left out.
\<close>

record FileServerExpr =
  Service :: "addr option"
  Description :: string
  FilePath :: string
  RequestPath :: string

text \<open>
  \<open>ServiceExpr\<close> is declared outside these sources; the fields are the ones the functions
  below read: \<open>Name()\<close> (the name of the underlying service), \<open>Path\<close>, \<open>ParentName\<close>,
  \<open>HTTPEndpoints\<close> and \<open>FileServers\<close>. The type of endpoints is the parameter \<open>'e\<close>.
  A slice of pointers is the list of the values pointed to: the slices are filled by
  \<open>append\<close> of freshly allocated expressions only.
\<close>

record 'e ServiceExpr =
  Name :: string
  Path :: string
  ParentName :: string
  HTTPEndpoints :: "'e list"
  FileServers :: "FileServerExpr list"

text \<open>
  The transport-agnostic design root, as far as \<open>Schemes\<close> reads it:
  \<open>r.Design.API.Servers\<close> and the \<open>URL\<close> of each server.
\<close>

record ServerExpr =
  URL :: string

record APIExpr =
  Servers :: "ServerExpr list"

record design_RootExpr =
  API :: "APIExpr option"

text \<open>
  \<open>RootExpr\<close>. \<open>HTTPErrors\<close> and \<open>Metadata\<close> are read by none of the functions below
  and are left out.
\<close>

record 'e RootExpr =
  Design :: "design_RootExpr option"
  Path :: string
  Consumes :: "string list"
  Produces :: "string list"
  HTTPServices :: "'e ServiceExpr list"
  params :: "addr option"
  headers :: "addr option"

text \<open>The root together with the store of attributes its pointers refer to.\<close>

record 'e world =
  root :: "'e RootExpr"
  attrs :: "AttributeExpr list"

section \<open>Lazy containers: \<open>Headers\<close>, \<open>Params\<close>, \<open>MappedHeaders\<close>, \<open>MappedParams\<close> (root.go)\<close>

text \<open>
  \<open>Headers\<close>: when \<open>r.headers\<close> is \<open>nil\<close>, allocate
  \<open>&design.AttributeExpr{Type: &design.Object{}}\<close> and store the pointer in the root;
  return \<open>r.headers\<close>. \<open>Params\<close> does the same with \<open>r.params\<close>.
\<close>

definition Headers :: "'e world \<Rightarrow> addr \<times> 'e world" where
  "Headers w =
     (case headers (root w) of
        None \<Rightarrow>
          (let a = length (attrs w) in
           (a, w\<lparr>root := (root w)\<lparr>headers := Some a\<rparr>,
                  attrs := attrs w @ [AttributeExpr (Object [])]\<rparr>))
      | Some a \<Rightarrow> (a, w))"

definition Params :: "'e world \<Rightarrow> addr \<times> 'e world" where
  "Params w =
     (case params (root w) of
        None \<Rightarrow>
          (let a = length (attrs w) in
           (a, w\<lparr>root := (root w)\<lparr>params := Some a\<rparr>,
                  attrs := attrs w @ [AttributeExpr (Object [])]\<rparr>))
      | Some a \<Rightarrow> (a, w))"

text \<open>
  \<open>MappedHeaders\<close> and \<open>MappedParams\<close> hand the raw field to
  \<open>design.NewMappedAttributeExpr\<close>, which is declared outside these sources and is a
  parameter here: it gets the pointer (possibly \<open>nil\<close>) and the store, and gives its
  result and the store it leaves.
\<close>

definition MappedHeaders ::
  "(addr option \<Rightarrow> AttributeExpr list \<Rightarrow> 'm \<times> AttributeExpr list) \<Rightarrow> 'e world \<Rightarrow> 'm \<times> 'e world" where
  "MappedHeaders NewMappedAttributeExpr w =
     (let (m, store) = NewMappedAttributeExpr (headers (root w)) (attrs w)
      in (m, w\<lparr>attrs := store\<rparr>))"

definition MappedParams ::
  "(addr option \<Rightarrow> AttributeExpr list \<Rightarrow> 'm \<times> AttributeExpr list) \<Rightarrow> 'e world \<Rightarrow> 'm \<times> 'e world" where
  "MappedParams NewMappedAttributeExpr w =
     (let (m, store) = NewMappedAttributeExpr (params (root w)) (attrs w)
      in (m, w\<lparr>attrs := store\<rparr>))"

text \<open>
  Modelled from the spec: attaching a named attribute to a container through a pointer to
  it (what the DSL does with the result of \<open>Headers()\<close>): the object at that address
  gains the field. A pointer to something that is not an object is left alone.
\<close>

definition attach :: "addr \<Rightarrow> string \<Rightarrow> AttributeExpr \<Rightarrow> 'e world \<Rightarrow> 'e world" where
  "attach a name att w =
     (if a < length (attrs w) then
        (case attrs w ! a of
           AttributeExpr (Object fs) \<Rightarrow>
             w\<lparr>attrs := (attrs w)[a := AttributeExpr (Object (fs @ [(name, att)]))]\<rparr>
         | _ \<Rightarrow> w)
      else w)"

text \<open>The calls a client can make on the containers of a root, and a run of them.\<close>

datatype container_call =
  CallHeaders | CallParams | CallAttach addr string AttributeExpr

fun call :: "container_call \<Rightarrow> 'e world \<Rightarrow> 'e world" where
  "call CallHeaders w = snd (Headers w)"
| "call CallParams w = snd (Params w)"
| "call (CallAttach a name att) w = attach a name att w"

definition calls :: "container_call list \<Rightarrow> 'e world \<Rightarrow> 'e world" where
  "calls cs w = fold call cs w"

text \<open>The fields of the container at an address (none when it is not an object).\<close>

definition fields_at :: "'e world \<Rightarrow> addr \<Rightarrow> (string \<times> AttributeExpr) list" where
  "fields_at w a =
     (case attrs w ! a of AttributeExpr (Object fs) \<Rightarrow> fs | _ \<Rightarrow> [])"

text \<open>A root as the package creates it, before any declaration: no containers yet.\<close>

definition empty_root :: "unit RootExpr" where
  "empty_root =
     \<lparr>Design = None, Path = '''', Consumes = [], Produces = [], HTTPServices = [],
      params = None, headers = None\<rparr>"

subsection \<open>First and later calls\<close>

lemma Headers_first:
  "headers (root w) = None \<Longrightarrow>
   Headers w = (length (attrs w),
                w\<lparr>root := (root w)\<lparr>headers := Some (length (attrs w))\<rparr>,
                  attrs := attrs w @ [AttributeExpr (Object [])]\<rparr>)"
  by (simp add: Headers_def Let_def)

lemma Headers_later: "headers (root w) = Some a \<Longrightarrow> Headers w = (a, w)"
  by (simp add: Headers_def Let_def)

lemma Params_first:
  "params (root w) = None \<Longrightarrow>
   Params w = (length (attrs w),
                w\<lparr>root := (root w)\<lparr>params := Some (length (attrs w))\<rparr>,
                  attrs := attrs w @ [AttributeExpr (Object [])]\<rparr>)"
  by (simp add: Params_def Let_def)

lemma Params_later: "params (root w) = Some a \<Longrightarrow> Params w = (a, w)"
  by (simp add: Params_def Let_def)

lemma root_attach [simp]: "root (attach a name att w) = root w"
  by (simp add: attach_def split: AttributeExpr.splits DataType.splits)

lemma length_attrs_attach [simp]: "length (attrs (attach a name att w)) = length (attrs w)"
  by (simp add: attach_def split: AttributeExpr.splits DataType.splits)

lemma call_keeps_headers:
  "headers (root w) = Some a \<Longrightarrow> headers (root (call c w)) = Some a"
  by (cases c) (simp_all add: Headers_def Params_def Let_def split: option.splits)

lemma call_keeps_params:
  "params (root w) = Some a \<Longrightarrow> params (root (call c w)) = Some a"
  by (cases c) (simp_all add: Headers_def Params_def Let_def split: option.splits)

lemma calls_keep_headers:
  "headers (root w) = Some a \<Longrightarrow> headers (root (calls cs w)) = Some a"
  unfolding calls_def by (induction cs arbitrary: w) (simp_all add: call_keeps_headers)

lemma calls_keep_params:
  "params (root w) = Some a \<Longrightarrow> params (root (calls cs w)) = Some a"
  unfolding calls_def by (induction cs arbitrary: w) (simp_all add: call_keeps_params)

definition holds_field :: "'e world \<Rightarrow> addr \<Rightarrow> string \<times> AttributeExpr \<Rightarrow> bool" where
  "holds_field w a f \<longleftrightarrow> a < length (attrs w) \<and> f \<in> set (fields_at w a)"

definition is_container :: "'e world \<Rightarrow> addr \<Rightarrow> bool" where
  "is_container w a \<longleftrightarrow>
     a < length (attrs w) \<and> (\<exists>fs. attrs w ! a = AttributeExpr (Object fs))"

lemma attach_is_container:
  "is_container w a \<Longrightarrow> is_container (attach b name att w) a"
  by (auto simp: is_container_def attach_def nth_list_update split: AttributeExpr.splits DataType.splits)

lemma Headers_is_container: "is_container w a \<Longrightarrow> is_container (snd (Headers w)) a"
  by (auto simp: is_container_def Headers_def Let_def nth_append split: option.splits)

lemma Params_is_container: "is_container w a \<Longrightarrow> is_container (snd (Params w)) a"
  by (auto simp: is_container_def Params_def Let_def nth_append split: option.splits)

lemma call_is_container: "is_container w a \<Longrightarrow> is_container (call c w) a"
  by (cases c) (simp_all add: attach_is_container Headers_is_container Params_is_container)

lemma calls_is_container: "is_container w a \<Longrightarrow> is_container (calls cs w) a"
  unfolding calls_def by (induction cs arbitrary: w) (simp_all add: call_is_container)

lemma attach_holds_new:
  "is_container w a \<Longrightarrow> holds_field (attach a name att w) a (name, att)"
  by (auto simp: is_container_def holds_field_def fields_at_def attach_def)

lemma attach_holds_old:
  "holds_field w a f \<Longrightarrow> holds_field (attach b name att w) a f"
  by (auto simp: holds_field_def fields_at_def attach_def nth_list_update
      split: AttributeExpr.splits DataType.splits)

lemma Headers_holds: "holds_field w a f \<Longrightarrow> holds_field (snd (Headers w)) a f"
  by (auto simp: holds_field_def fields_at_def Headers_def Let_def nth_append split: option.splits)

lemma Params_holds: "holds_field w a f \<Longrightarrow> holds_field (snd (Params w)) a f"
  by (auto simp: holds_field_def fields_at_def Params_def Let_def nth_append split: option.splits)

lemma call_holds: "holds_field w a f \<Longrightarrow> holds_field (call c w) a f"
  by (cases c) (simp_all add: attach_holds_old Headers_holds Params_holds)

lemma calls_hold: "holds_field w a f \<Longrightarrow> holds_field (calls cs w) a f"
  unfolding calls_def by (induction cs arbitrary: w) (simp_all add: call_holds)

lemma Headers_first_container:
  "headers (root w) = None \<Longrightarrow> is_container (snd (Headers w)) (fst (Headers w))"
  by (simp add: Headers_first is_container_def)

lemma Params_first_container:
  "params (root w) = None \<Longrightarrow> is_container (snd (Params w)) (fst (Params w))"
  by (simp add: Params_first is_container_def)

text \<open>
  Claim C6. On a root whose \<open>headers\<close> field is still \<open>nil\<close>, the first call of
  \<open>Headers()\<close> allocates a new attribute, an object with no fields, and returns the
  pointer to it (a valid address, never \<open>nil\<close>). After any further calls of
  \<open>Headers()\<close>, \<open>Params()\<close> and attachments, \<open>Headers()\<close> returns that same pointer and
  changes nothing; and an attribute attached through the first pointer is among the fields
  of the container that a later call returns. The same holds of \<open>Params()\<close> and the
  \<open>params\<close> field.
\<close>

theorem lazy_containers:
  "(headers (root w) = None \<longrightarrow>
      (let (a, w1) = Headers w;
           w2 = calls cs' (attach a name att (calls cs w1))
       in a = length (attrs w) \<and> a < length (attrs w1) \<and>
          attrs w1 ! a = AttributeExpr (Object []) \<and>
          Headers (calls cs w1) = (a, calls cs w1) \<and>
          Headers w2 = (a, w2) \<and> (name, att) \<in> set (fields_at w2 a))) \<and>
   (params (root w) = None \<longrightarrow>
      (let (a, w1) = Params w;
           w2 = calls cs' (attach a name att (calls cs w1))
       in a = length (attrs w) \<and> a < length (attrs w1) \<and>
          attrs w1 ! a = AttributeExpr (Object []) \<and>
          Params (calls cs w1) = (a, calls cs w1) \<and>
          Params w2 = (a, w2) \<and> (name, att) \<in> set (fields_at w2 a)))"
proof (intro conjI impI)
  assume h: "headers (root w) = None"
  obtain a w1 where aw: "Headers w = (a, w1)" by (cases "Headers w")
  define w2 where "w2 = calls cs' (attach a name att (calls cs w1))"
  have a: "a = length (attrs w)" and w1: "headers (root w1) = Some a"
    and e: "attrs w1 ! a = AttributeExpr (Object [])" and l: "a < length (attrs w1)"
    using aw Headers_first [OF h] by auto
  have c: "is_container w1 a" using Headers_first_container [OF h] aw by simp
  have 1: "Headers (calls cs w1) = (a, calls cs w1)"
    by (rule Headers_later) (rule calls_keep_headers [OF w1])
  have "headers (root w2) = Some a"
    unfolding w2_def by (intro calls_keep_headers) (simp add: calls_keep_headers [OF w1])
  then have 2: "Headers w2 = (a, w2)" by (rule Headers_later)
  have "holds_field w2 a (name, att)"
    unfolding w2_def by (intro calls_hold attach_holds_new calls_is_container c)
  then have 3: "(name, att) \<in> set (fields_at w2 a)" by (simp add: holds_field_def)
  show "let (a, w1) = Headers w;
           w2 = calls cs' (attach a name att (calls cs w1))
       in a = length (attrs w) \<and> a < length (attrs w1) \<and>
          attrs w1 ! a = AttributeExpr (Object []) \<and>
          Headers (calls cs w1) = (a, calls cs w1) \<and>
          Headers w2 = (a, w2) \<and> (name, att) \<in> set (fields_at w2 a)"
    using a l e 1 2 3 unfolding aw w2_def by simp
next
  assume h: "params (root w) = None"
  obtain a w1 where aw: "Params w = (a, w1)" by (cases "Params w")
  define w2 where "w2 = calls cs' (attach a name att (calls cs w1))"
  have a: "a = length (attrs w)" and w1: "params (root w1) = Some a"
    and e: "attrs w1 ! a = AttributeExpr (Object [])" and l: "a < length (attrs w1)"
    using aw Params_first [OF h] by auto
  have c: "is_container w1 a" using Params_first_container [OF h] aw by simp
  have 1: "Params (calls cs w1) = (a, calls cs w1)"
    by (rule Params_later) (rule calls_keep_params [OF w1])
  have "params (root w2) = Some a"
    unfolding w2_def by (intro calls_keep_params) (simp add: calls_keep_params [OF w1])
  then have 2: "Params w2 = (a, w2)" by (rule Params_later)
  have "holds_field w2 a (name, att)"
    unfolding w2_def by (intro calls_hold attach_holds_new calls_is_container c)
  then have 3: "(name, att) \<in> set (fields_at w2 a)" by (simp add: holds_field_def)
  show "let (a, w1) = Params w;
           w2 = calls cs' (attach a name att (calls cs w1))
       in a = length (attrs w) \<and> a < length (attrs w1) \<and>
          attrs w1 ! a = AttributeExpr (Object []) \<and>
          Params (calls cs w1) = (a, calls cs w1) \<and>
          Params w2 = (a, w2) \<and> (name, att) \<in> set (fields_at w2 a)"
    using a l e 1 2 3 unfolding aw w2_def by simp
qed

theorem lazy_containers_witness:
  "headers (root \<lparr>root = empty_root, attrs = []\<rparr>) = None \<and>
   params (root \<lparr>root = empty_root, attrs = []\<rparr>) = None \<and>
   fst (Headers \<lparr>root = empty_root, attrs = []\<rparr>) = 0 \<and>
   fst (Headers (calls [CallParams, CallHeaders]
      (attach 0 ''X-Id'' (AttributeExpr (Primitive ''String''))
         (calls [CallParams] (snd (Headers \<lparr>root = empty_root, attrs = []\<rparr>)))))) = 0 \<and>
   fields_at (calls [CallParams, CallHeaders]
      (attach 0 ''X-Id'' (AttributeExpr (Primitive ''String''))
         (calls [CallParams] (snd (Headers \<lparr>root = empty_root, attrs = []\<rparr>))))) 0
     = [(''X-Id'', AttributeExpr (Primitive ''String''))] \<and>
   fst (Params \<lparr>root = empty_root, attrs = []\<rparr>) = 0"
  using lazy_containers [of "\<lparr>root = empty_root, attrs = []\<rparr>" "[CallParams, CallHeaders]"
      "''X-Id''" "AttributeExpr (Primitive ''String'')" "[CallParams]"]
  by (simp add: empty_root_def Headers_def Params_def calls_def attach_def fields_at_def Let_def)

text \<open>
  Claim C10. \<open>MappedHeaders()\<close> and \<open>MappedParams()\<close> leave the root as it is (no lazy
  initialisation: the fields \<open>headers\<close> and \<open>params\<close> keep their values). On a root
  whose field is still \<open>nil\<close> they hand \<open>nil\<close> to \<open>NewMappedAttributeExpr\<close>, whereas
  after \<open>Headers()\<close> (\<open>Params()\<close>) they hand it the pointer to the container, which is
  then the empty object.
\<close>

theorem mapped_accessors_read_raw_field:
  "root (snd (MappedHeaders mk w)) = root w \<and>
   root (snd (MappedParams mk w)) = root w \<and>
   (headers (root w) = None \<longrightarrow>
      fst (MappedHeaders mk w) = fst (mk None (attrs w)) \<and>
      (let (a, w1) = Headers w
       in attrs w1 ! a = AttributeExpr (Object []) \<and>
          fst (MappedHeaders mk w1) = fst (mk (Some a) (attrs w1)))) \<and>
   (params (root w) = None \<longrightarrow>
      fst (MappedParams mk w) = fst (mk None (attrs w)) \<and>
      (let (a, w1) = Params w
       in attrs w1 ! a = AttributeExpr (Object []) \<and>
          fst (MappedParams mk w1) = fst (mk (Some a) (attrs w1))))"
  by (simp add: MappedHeaders_def MappedParams_def Headers_def Params_def split_beta Let_def)

theorem mapped_accessors_witness:
  "MappedHeaders (\<lambda>p store. (p, store)) \<lparr>root = empty_root, attrs = []\<rparr>
     = (None, \<lparr>root = empty_root, attrs = []\<rparr>) \<and>
   MappedParams (\<lambda>p store. (p, store)) \<lparr>root = empty_root, attrs = []\<rparr>
     = (None, \<lparr>root = empty_root, attrs = []\<rparr>) \<and>
   fst (MappedHeaders (\<lambda>p store. (p, store)) (snd (Headers \<lparr>root = empty_root, attrs = []\<rparr>)))
     = Some 0"
  using mapped_accessors_read_raw_field [of "\<lambda>p store. (p, store)" "\<lparr>root = empty_root, attrs = []\<rparr>"]
  by (simp add: empty_root_def MappedHeaders_def MappedParams_def Headers_def Let_def)

section \<open>Schemes of the API servers: \<open>Schemes\<close> (root.go)\<close>

text \<open>
  \<open>net/url\<close> is not part of these sources. Of \<open>url.URL\<close> only the field \<open>Scheme\<close> is
  read. \<open>url.Parse\<close> is a parameter: it returns Go's pair \<open>(*URL, error)\<close>, either of
  which may be \<open>nil\<close> (\<open>None\<close>); an error is its message.
\<close>

record url_URL =
  Scheme :: string

type_synonym url_Parse = "string \<Rightarrow> url_URL option \<times> string option"

text \<open>
  The loop over \<open>r.Design.API.Servers\<close>. The map \<open>schemes\<close> of type
  \<open>map[string]bool\<close> only ever stores \<open>true\<close>: it is the set of its keys. The branch
  \<open>err != nil\<close> reads \<open>u.Scheme\<close>, which panics when \<open>u\<close> is \<open>nil\<close>.
\<close>

fun collect_schemes :: "url_Parse \<Rightarrow> ServerExpr list \<Rightarrow> string set \<Rightarrow> panic + string set" where
  "collect_schemes Parse [] schemes = Inr schemes"
| "collect_schemes Parse (s # servers) schemes =
     (case Parse (URL s) of
        (u, Some err) \<Rightarrow>
          (case u of
             None \<Rightarrow> Inl NilDereference
           | Some url \<Rightarrow> collect_schemes Parse servers (insert (Scheme url) schemes))
      | (u, None) \<Rightarrow> collect_schemes Parse servers schemes)"

text \<open>
  \<open>Schemes\<close>: \<open>nil\<close> (the empty list) when \<open>r.Design\<close> is \<open>nil\<close> or nothing was
  collected; otherwise the keys of the map, sorted by \<open>sort.Strings\<close> (bytewise
  lexicographic order, the order of \<open>string\<close> here). The order in which Go ranges over
  the map does not matter: the keys are distinct and are sorted afterwards.
  \<open>r.Design.API\<close> is a pointer: reading \<open>Servers\<close> through \<open>nil\<close> panics.
\<close>

definition Schemes :: "url_Parse \<Rightarrow> 'e RootExpr \<Rightarrow> panic + string list" where
  "Schemes Parse r =
     (case Design r of
        None \<Rightarrow> Inr []
      | Some d \<Rightarrow>
          (case API d of
             None \<Rightarrow> Inl NilDereference
           | Some api \<Rightarrow>
               (case collect_schemes Parse (Servers api) {} of
                  Inl p \<Rightarrow> Inl p
                | Inr schemes \<Rightarrow>
                    if schemes = {} then Inr [] else Inr (sorted_list_of_set schemes))))"

text \<open>The servers a root declares (none when the design or its API is missing).\<close>

definition declared_servers :: "'e RootExpr \<Rightarrow> ServerExpr list" where
  "declared_servers r =
     (case Design r of
        None \<Rightarrow> []
      | Some d \<Rightarrow> (case API d of None \<Rightarrow> [] | Some api \<Rightarrow> Servers api))"

text \<open>
  What \<open>net/url\<close> guarantees of \<open>url.Parse\<close>: every error return is
  \<open>return nil, &Error{...}\<close>, so a non-nil error comes with a nil URL.
\<close>

definition nil_on_error :: "url_Parse \<Rightarrow> bool" where
  "nil_on_error Parse \<longleftrightarrow> (\<forall>rawurl. snd (Parse rawurl) \<noteq> None \<longrightarrow> fst (Parse rawurl) = None)"

subsection \<open>A parser for concrete inputs\<close>

text \<open>
  For evaluating \<open>Schemes\<close> at concrete roots: the scheme step of \<open>url.Parse\<close>
  (\<open>getscheme\<close> of \<open>net/url\<close>), which fails with "missing protocol scheme" on a string
  that starts with a colon. The later steps of \<open>url.Parse\<close> (authority, path, escapes)
  are not modelled; it is used below only on \<open>":8080"\<close>, which \<open>url.Parse\<close> rejects at
  this step, and on plain lower-case \<open>http\<close> and \<open>https\<close> URLs, which it accepts.
\<close>

definition is_letter :: "char \<Rightarrow> bool" where
  "is_letter c \<longleftrightarrow> CHR ''a'' \<le> c \<and> c \<le> CHR ''z'' \<or> CHR ''A'' \<le> c \<and> c \<le> CHR ''Z''"

definition is_digit :: "char \<Rightarrow> bool" where
  "is_digit c \<longleftrightarrow> CHR ''0'' \<le> c \<and> c \<le> CHR ''9''"

fun getscheme_loop :: "string \<Rightarrow> nat \<Rightarrow> string \<Rightarrow> string \<times> string \<times> string option" where
  "getscheme_loop rawurl i [] = ('''', rawurl, None)"
| "getscheme_loop rawurl i (c # cs) =
     (if is_letter c then getscheme_loop rawurl (i + 1) cs
      else if is_digit c \<or> c = CHR ''+'' \<or> c = CHR ''-'' \<or> c = CHR ''.'' then
        (if i = 0 then ('''', rawurl, None) else getscheme_loop rawurl (i + 1) cs)
      else if c = CHR '':'' then
        (if i = 0 then ('''', '''', Some ''missing protocol scheme'')
         else (take i rawurl, drop (i + 1) rawurl, None))
      else ('''', rawurl, None))"

definition getscheme :: "string \<Rightarrow> string \<times> string \<times> string option" where
  "getscheme rawurl = getscheme_loop rawurl 0 rawurl"

definition Parse_scheme_step :: url_Parse where
  "Parse_scheme_step rawurl =
     (case getscheme rawurl of
        (scheme, rest, Some err) \<Rightarrow> (None, Some err)
      | (scheme, rest, None) \<Rightarrow> (Some \<lparr>Scheme = scheme\<rparr>, None))"

text \<open>A root whose design declares servers with the given URLs, and nothing else.\<close>

definition root_with_servers :: "string list \<Rightarrow> unit RootExpr" where
  "root_with_servers urls =
     empty_root\<lparr>Design := Some \<lparr>API = Some \<lparr>Servers = map (\<lambda>u. \<lparr>URL = u\<rparr>) urls\<rparr>\<rparr>\<rparr>"

subsection \<open>The collecting loop\<close>

lemma Parse_scheme_step_nil_on_error: "nil_on_error Parse_scheme_step"
  by (auto simp: nil_on_error_def Parse_scheme_step_def split: prod.splits option.splits)

lemma collect_schemes_set:
  "collect_schemes Parse servers schemes = Inr out \<Longrightarrow>
   out = schemes \<union> {Scheme u | s u e. s \<in> set servers \<and> Parse (URL s) = (Some u, Some e)}"
proof (induction servers arbitrary: schemes)
  case Nil
  then show ?case by simp
next
  case (Cons s servers)
  let ?S = "\<lambda>xs. {Scheme u | s u e. s \<in> set xs \<and> Parse (URL s) = (Some u, Some e)}"
  obtain u e where p: "Parse (URL s) = (u, e)" by (cases "Parse (URL s)")
  show ?case
  proof (cases e)
    case None
    with Cons.prems p have "collect_schemes Parse servers schemes = Inr out" by simp
    then have "out = schemes \<union> ?S servers" by (rule Cons.IH)
    moreover have "?S (s # servers) = ?S servers" using p None by auto
    ultimately show ?thesis by simp
  next
    case (Some err)
    with Cons.prems p obtain url where u: "u = Some url"
      and c: "collect_schemes Parse servers (insert (Scheme url) schemes) = Inr out"
      by (cases u) auto
    from c have "out = insert (Scheme url) schemes \<union> ?S servers" by (rule Cons.IH)
    moreover have "?S (s # servers) = insert (Scheme url) (?S servers)"
      using p Some u by auto
    ultimately show ?thesis by simp
  qed
qed

lemma collect_schemes_finite:
  "collect_schemes Parse servers schemes = Inr out \<Longrightarrow> finite schemes \<Longrightarrow> finite out"
  by (induction servers arbitrary: schemes) (auto split: prod.splits option.splits)

lemma collect_schemes_no_error:
  "\<forall>s\<in>set servers. snd (Parse (URL s)) = None \<Longrightarrow>
   collect_schemes Parse servers schemes = Inr schemes"
  by (induction servers arbitrary: schemes) (auto split: prod.splits option.splits)

lemma collect_schemes_error:
  "nil_on_error Parse \<Longrightarrow> \<exists>s\<in>set servers. snd (Parse (URL s)) \<noteq> None \<Longrightarrow>
   collect_schemes Parse servers schemes = Inl NilDereference"
proof (induction servers arbitrary: schemes)
  case Nil
  then show ?case by simp
next
  case (Cons s servers)
  show ?case
  proof (cases "snd (Parse (URL s)) = None")
    case True
    with Cons show ?thesis by (cases "Parse (URL s)") auto
  next
    case False
    with Cons.prems(1) have "fst (Parse (URL s)) = None" by (simp add: nil_on_error_def)
    with False show ?thesis by (cases "Parse (URL s)") auto
  qed
qed

lemma Schemes_Design_nil: "Design r = None \<Longrightarrow> Schemes Parse r = Inr []"
  by (simp add: Schemes_def)

lemma Schemes_no_error:
  assumes "Design r = Some d" and "API d = Some api"
    and "\<forall>s\<in>set (Servers api). snd (Parse (URL s)) = None"
  shows "Schemes Parse r = Inr []"
  using assms by (simp add: Schemes_def collect_schemes_no_error)

lemma Schemes_error:
  assumes "nil_on_error Parse" and "Design r = Some d" and "API d = Some api"
    and "\<exists>s\<in>set (Servers api). snd (Parse (URL s)) \<noteq> None"
  shows "Schemes Parse r = Inl NilDereference"
  using assms by (simp add: Schemes_def collect_schemes_error)

lemma Schemes_returns:
  assumes "Schemes Parse r = Inr ss"
  shows "sorted ss \<and> distinct ss \<and>
         set ss = {Scheme u | s u e. s \<in> set (declared_servers r) \<and> Parse (URL s) = (Some u, Some e)}"
proof (cases "Design r")
  case None
  with assms show ?thesis by (simp add: Schemes_def declared_servers_def)
next
  case (Some d)
  show ?thesis
  proof (cases "API d")
    case None
    with Some assms show ?thesis by (simp add: Schemes_def)
  next
    case api: (Some api)
    let ?S = "{Scheme u | s u e. s \<in> set (Servers api) \<and> Parse (URL s) = (Some u, Some e)}"
    have ds: "declared_servers r = Servers api"
      using Some api by (simp add: declared_servers_def)
    from assms Some api obtain out where c: "collect_schemes Parse (Servers api) {} = Inr out"
      and ss: "ss = (if out = {} then [] else sorted_list_of_set out)"
      by (cases "collect_schemes Parse (Servers api) {}") (auto simp: Schemes_def split: if_splits)
    have out: "out = ?S" using collect_schemes_set [OF c] by simp
    have fin: "finite out" using collect_schemes_finite [OF c] by simp
    have "ss = sorted_list_of_set out" using ss by auto
    then show ?thesis using fin out ds by simp
  qed
qed

text \<open>
  Claim C2 is not met by the code. \<open>url.Parse(":8080")\<close> reports "missing protocol
  scheme" and returns no URL; the collecting branch, entered on \<open>err != nil\<close>, then reads
  the scheme through the nil URL, and \<open>Schemes()\<close> panics instead of returning the
  deduplicated, sorted list of schemes.
\<close>

theorem Schemes_panics_on_unparsable_url:
  "Parse_scheme_step '':8080'' = (None, Some ''missing protocol scheme'') \<and>
   Schemes Parse_scheme_step (root_with_servers ['':8080'']) = Inl NilDereference"
  by (simp add: Schemes_def root_with_servers_def empty_root_def Parse_scheme_step_def
      getscheme_def is_letter_def is_digit_def)

text \<open>
  Claim C9. With a parser that returns a nil URL with every error (as \<open>url.Parse\<close>
  does): a step of the loop enters the collecting branch exactly when parsing reports an
  error, and there it dereferences \<open>nil\<close>. So \<open>Schemes()\<close> either returns \<open>nil\<close> or
  panics with a nil dereference, never a non-empty list; it returns \<open>nil\<close> when every
  server URL parses, and panics when one does not.
\<close>

theorem Schemes_nil_or_nil_dereference:
  assumes "nil_on_error Parse"
  shows "collect_schemes Parse (s # servers) schemes =
           (if snd (Parse (URL s)) \<noteq> None then Inl NilDereference
            else collect_schemes Parse servers schemes) \<and>
         (Schemes Parse r = Inr [] \<or> Schemes Parse r = Inl NilDereference) \<and>
         (Design r = Some d \<and> API d = Some api \<longrightarrow>
            (if \<exists>s\<in>set (Servers api). snd (Parse (URL s)) \<noteq> None
             then Schemes Parse r = Inl NilDereference
             else Schemes Parse r = Inr []))"
proof (intro conjI impI)
  show "collect_schemes Parse (s # servers) schemes =
           (if snd (Parse (URL s)) \<noteq> None then Inl NilDereference
            else collect_schemes Parse servers schemes)"
  proof (cases "snd (Parse (URL s)) = None")
    case True
    then show ?thesis by (cases "Parse (URL s)") auto
  next
    case False
    with assms have "fst (Parse (URL s)) = None" by (simp add: nil_on_error_def)
    with False show ?thesis by (cases "Parse (URL s)") auto
  qed
next
  assume da: "Design r = Some d \<and> API d = Some api"
  show "if \<exists>s\<in>set (Servers api). snd (Parse (URL s)) \<noteq> None
        then Schemes Parse r = Inl NilDereference else Schemes Parse r = Inr []"
    using Schemes_error [OF assms, of r d api] Schemes_no_error [of r d api Parse] da
    by auto
next
  show "Schemes Parse r = Inr [] \<or> Schemes Parse r = Inl NilDereference"
  proof (cases "Design r")
    case None
    then show ?thesis by (simp add: Schemes_Design_nil)
  next
    case (Some d')
    show ?thesis
    proof (cases "API d'")
      case None
      with Some show ?thesis by (simp add: Schemes_def)
    next
      case api: (Some api')
      show ?thesis
        using Schemes_error [OF assms Some api] Schemes_no_error [OF Some api, of Parse]
        by blast
    qed
  qed
qed

theorem Schemes_nil_or_nil_dereference_witness:
  "nil_on_error Parse_scheme_step \<and>
   Schemes Parse_scheme_step (root_with_servers [''http://example.com'', ''https://example.com''])
     = Inr [] \<and>
   Schemes Parse_scheme_step (root_with_servers [''http://example.com'', '':8080''])
     = Inl NilDereference"
  using Schemes_nil_or_nil_dereference [OF Parse_scheme_step_nil_on_error,
      of "\<lparr>URL = '':8080''\<rparr>" "[]" "{}"
         "root_with_servers [''http://example.com'', '':8080'']"
         "\<lparr>API = Some \<lparr>Servers = [\<lparr>URL = ''http://example.com''\<rparr>, \<lparr>URL = '':8080''\<rparr>]\<rparr>\<rparr>"
         "\<lparr>Servers = [\<lparr>URL = ''http://example.com''\<rparr>, \<lparr>URL = '':8080''\<rparr>]\<rparr>"]
    Parse_scheme_step_nil_on_error
  by (simp add: Schemes_def root_with_servers_def empty_root_def Parse_scheme_step_def
      getscheme_def is_letter_def is_digit_def)

section \<open>Go's stable sort: \<open>sort.SliceStable\<close>\<close>

text \<open>
  \<open>WalkSets\<close> sorts with \<open>sort.SliceStable\<close> and a comparator that is not an ordering,
  so what it does depends on the algorithm, which is Go's \<open>stable\<close> (package \<open>sort\<close>):
  insertion sort on blocks of 20 elements, then rounds of \<open>symMerge\<close> on blocks of
  doubling size. The slice is the list \<open>data\<close>; \<open>Less(i, j)\<close> reads the slice as it is
  at the moment of the call, \<open>Swap(i, j)\<close> exchanges two elements. Indices are \<open>nat\<close>:
  every index the algorithm computes lies in \<open>0..n\<close>, far from the range of Go's \<open>int\<close>.
\<close>

type_synonym 'a less_func = "'a list \<Rightarrow> nat \<Rightarrow> nat \<Rightarrow> bool"

definition Swap :: "nat \<Rightarrow> nat \<Rightarrow> 'a list \<Rightarrow> 'a list" where
  "Swap i j data = data[i := data ! j, j := data ! i]"

text \<open>
  \<open>insertionSort(data, a, b)\<close>:
  \<^verbatim>\<open>for i := a + 1; i < b; i++ {
    for j := i; j > a && data.Less(j, j-1); j-- { data.Swap(j, j-1) } }\<close>
\<close>

function insertion_loop :: "'a less_func \<Rightarrow> nat \<Rightarrow> nat \<Rightarrow> 'a list \<Rightarrow> 'a list" where
  "insertion_loop Less a j data =
     (if j > a \<and> Less data j (j - 1) then insertion_loop Less a (j - 1) (Swap j (j - 1) data)
      else data)"
  by pat_completeness auto
termination
  by (relation "measure (\<lambda>(Less, a, j, data). j)") auto

definition insertionSort :: "'a less_func \<Rightarrow> nat \<Rightarrow> nat \<Rightarrow> 'a list \<Rightarrow> 'a list" where
  "insertionSort Less a b data = fold (\<lambda>i. insertion_loop Less a i) [a + 1..<b] data"

text \<open>\<open>swapRange(data, a, b, n)\<close>: \<^verbatim>\<open>for i := 0; i < n; i++ { data.Swap(a+i, b+i) }\<close>\<close>

definition swapRange :: "nat \<Rightarrow> nat \<Rightarrow> nat \<Rightarrow> 'a list \<Rightarrow> 'a list" where
  "swapRange a b n data = fold (\<lambda>i. Swap (a + i) (b + i)) [0..<n] data"

text \<open>
  \<open>rotate(data, a, m, b)\<close>, with \<open>i = m - a\<close> and \<open>j = b - m\<close>:
  \<^verbatim>\<open>for i != j {
    if i > j { swapRange(data, m-i, m, j); i -= j }
    else { swapRange(data, m-i, m+j-i, i); j -= i } }
  swapRange(data, m-i, m, i)\<close>
  \<open>symMerge\<close> calls it only with \<open>a < m < b\<close>, so \<open>i\<close> and \<open>j\<close> are positive and stay
  so. With \<open>i \<noteq> j\<close> and one of them \<open>0\<close> the loop of the source would not end; the
  model leaves the loop there.
\<close>

function rotate_loop :: "nat \<Rightarrow> nat \<Rightarrow> nat \<Rightarrow> 'a list \<Rightarrow> 'a list" where
  "rotate_loop m i j data =
     (if i \<noteq> j \<and> 0 < i \<and> 0 < j then
        (if i > j then rotate_loop m (i - j) j (swapRange (m - i) m j data)
         else rotate_loop m i (j - i) (swapRange (m - i) (m + j - i) i data))
      else swapRange (m - i) m i data)"
  by pat_completeness auto
termination
  by (relation "measure (\<lambda>(m, i, j, data). i + j)") auto

definition rotate :: "nat \<Rightarrow> nat \<Rightarrow> nat \<Rightarrow> 'a list \<Rightarrow> 'a list" where
  "rotate a m b data = rotate_loop m (m - a) (b - m) data"

text \<open>
  The three binary searches of \<open>symMerge\<close>. In the source \<open>h\<close> is
  \<open>int(uint(i+j) >> 1)\<close>, the midpoint.
  \<^verbatim>\<open>for i < j { h := ...; if data.Less(h, a) { i = h + 1 } else { j = h } }\<close>
  \<^verbatim>\<open>for i < j { h := ...; if !data.Less(m, h) { i = h + 1 } else { j = h } }\<close>
  \<^verbatim>\<open>for start < r { c := ...; if !data.Less(p-c, c) { start = c + 1 } else { r = c } }\<close>
\<close>

function search_left :: "'a less_func \<Rightarrow> 'a list \<Rightarrow> nat \<Rightarrow> nat \<Rightarrow> nat \<Rightarrow> nat" where
  "search_left Less data a i j =
     (if i < j then
        (let h = (i + j) div 2
         in if Less data h a then search_left Less data a (h + 1) j
            else search_left Less data a i h)
      else i)"
  by pat_completeness auto
termination
  by (relation "measure (\<lambda>(Less, data, a, i, j). j - i)") auto

function search_right :: "'a less_func \<Rightarrow> 'a list \<Rightarrow> nat \<Rightarrow> nat \<Rightarrow> nat \<Rightarrow> nat" where
  "search_right Less data m i j =
     (if i < j then
        (let h = (i + j) div 2
         in if \<not> Less data m h then search_right Less data m (h + 1) j
            else search_right Less data m i h)
      else i)"
  by pat_completeness auto
termination
  by (relation "measure (\<lambda>(Less, data, m, i, j). j - i)") auto

function search_sym :: "'a less_func \<Rightarrow> 'a list \<Rightarrow> nat \<Rightarrow> nat \<Rightarrow> nat \<Rightarrow> nat" where
  "search_sym Less data p start r =
     (if start < r then
        (let c = (start + r) div 2
         in if \<not> Less data (p - c) c then search_sym Less data p (c + 1) r
            else search_sym Less data p start c)
      else start)"
  by pat_completeness auto
termination
  by (relation "measure (\<lambda>(Less, data, p, start, r). r - start)") auto

text \<open>
  \<open>symMerge(data, a, m, b)\<close> merges the sorted runs \<open>data[a:m]\<close> and \<open>data[m:b]\<close>.
  \<open>symMerge_start\<close> is the value of \<open>start\<close> after the third search:
  \<^verbatim>\<open>mid := int(uint(a+b) >> 1); n := mid + m
  if m > mid { start = n - b; r = mid } else { start = a; r = m }
  p := n - 1\<close>
\<close>

definition symMerge_start :: "'a less_func \<Rightarrow> nat \<Rightarrow> nat \<Rightarrow> nat \<Rightarrow> 'a list \<Rightarrow> nat" where
  "symMerge_start Less a m b data =
     (let mid = (a + b) div 2;
          n = mid + m;
          (start, r) = (if m > mid then (n - b, mid) else (a, m));
          p = n - 1
      in search_sym Less data p start r)"

text \<open>
  The two special cases insert a single element by a search and a run of swaps:
  \<^verbatim>\<open>for k := a; k < i-1; k++ { data.Swap(k, k+1) }\<close> and
  \<^verbatim>\<open>for k := m; k > i; k-- { data.Swap(k, k-1) }\<close>. The general case:
  \<^verbatim>\<open>end := n - start
  if start < m && m < end { rotate(data, start, m, end) }
  if a < start && start < mid { symMerge(data, a, start, mid) }
  if mid < end && end < b { symMerge(data, mid, end, b) }\<close>
\<close>

function symMerge :: "'a less_func \<Rightarrow> nat \<Rightarrow> nat \<Rightarrow> nat \<Rightarrow> 'a list \<Rightarrow> 'a list" where
  "symMerge Less a m b data =
     (if m - a = 1 then
        (let i = search_left Less data a m b
         in fold (\<lambda>k. Swap k (k + 1)) [a..<i - 1] data)
      else if b - m = 1 then
        (let i = search_right Less data m a m
         in fold (\<lambda>k. Swap k (k - 1)) (rev [i + 1..<m + 1]) data)
      else
        (let mid = (a + b) div 2;
             n = mid + m;
             start = symMerge_start Less a m b data;
             end = n - start;
             data1 = (if start < m \<and> m < end then rotate start m end data else data);
             data2 = (if a < start \<and> start < mid then symMerge Less a start mid data1 else data1)
         in if mid < end \<and> end < b then symMerge Less mid end b data2 else data2))"
  by pat_completeness auto
termination
proof (relation "measure (\<lambda>(Less, a, m, b, data). b - a)", goal_cases)
  case 1
  show ?case by simp
next
  case (2 Less a m b data mid n start "end" data1)
  then show ?case by simp linarith
next
  case (3 Less a m b data mid n start "end" data1 data2)
  then show ?case by simp linarith
qed

text \<open>
  \<open>stable(data, n)\<close>. First the blocks:
  \<^verbatim>\<open>blockSize := 20 // must be > 0
  a, b := 0, blockSize
  for b <= n { insertionSort(data, a, b); a = b; b += blockSize }
  insertionSort(data, a, n)\<close>
\<close>

function stable_blocks :: "'a less_func \<Rightarrow> nat \<Rightarrow> nat \<Rightarrow> nat \<Rightarrow> 'a list \<Rightarrow> 'a list" where
  "stable_blocks Less n a b data =
     (if b \<le> n then stable_blocks Less n b (b + 20) (insertionSort Less a b data)
      else insertionSort Less a n data)"
  by pat_completeness auto
termination
  by (relation "measure (\<lambda>(Less, n, a, b, data). Suc n - b)") auto

text \<open>
  Then the merging rounds. \<open>blockSize\<close> starts at 20 and is doubled after each round: in
  round \<open>k\<close> it is \<open>20 * 2 ^ k\<close> (the loops end because it is positive).
  \<^verbatim>\<open>for blockSize < n {
    a, b = 0, 2*blockSize
    for b <= n { symMerge(data, a, a+blockSize, b); a = b; b += 2 * blockSize }
    if m := a + blockSize; m < n { symMerge(data, a, m, n) }
    blockSize *= 2 }\<close>
\<close>

definition blockSize :: "nat \<Rightarrow> nat" where
  "blockSize k = 20 * 2 ^ k"

function merge_blocks :: "'a less_func \<Rightarrow> nat \<Rightarrow> nat \<Rightarrow> nat \<Rightarrow> nat \<Rightarrow> 'a list \<Rightarrow> 'a list" where
  "merge_blocks Less n k a b data =
     (if b \<le> n then
        merge_blocks Less n k b (b + 2 * blockSize k) (symMerge Less a (a + blockSize k) b data)
      else
        (let m = a + blockSize k
         in if m < n then symMerge Less a m n data else data))"
  by pat_completeness auto
termination
proof (relation "measure (\<lambda>(Less, n, k, a, b, data). Suc n - b)", goal_cases)
  case 1
  show ?case by simp
next
  case (2 Less n k a b data)
  have "0 < blockSize k" by (simp add: blockSize_def)
  with 2 show ?case by simp
qed

function merge_passes :: "'a less_func \<Rightarrow> nat \<Rightarrow> nat \<Rightarrow> 'a list \<Rightarrow> 'a list" where
  "merge_passes Less n k data =
     (if blockSize k < n then
        merge_passes Less n (k + 1) (merge_blocks Less n k 0 (2 * blockSize k) data)
      else data)"
  by pat_completeness auto
termination
proof (relation "measure (\<lambda>(Less, n, k, data). n - blockSize k)", goal_cases)
  case 1
  show ?case by simp
next
  case (2 Less n k data)
  have "blockSize (k + 1) = 2 * blockSize k" and "0 < blockSize k"
    by (simp_all add: blockSize_def)
  with 2 show ?case by simp
qed

definition stable :: "'a less_func \<Rightarrow> nat \<Rightarrow> 'a list \<Rightarrow> 'a list" where
  "stable Less n data = merge_passes Less n 0 (stable_blocks Less n 0 20 data)"

text \<open>\<open>sort.SliceStable(slice, less)\<close> is \<open>stable\<close> on the slice with its length.\<close>

definition SliceStable :: "'a list \<Rightarrow> 'a less_func \<Rightarrow> 'a list" where
  "SliceStable slice Less = stable Less (length slice) slice"

declare insertion_loop.simps [simp del] rotate_loop.simps [simp del] search_left.simps [simp del]
  search_right.simps [simp del] search_sym.simps [simp del] symMerge.simps [simp del]
  stable_blocks.simps [simp del] merge_blocks.simps [simp del] merge_passes.simps [simp del]

section \<open>Enumerating the expressions: \<open>WalkSets\<close> (root.go)\<close>

text \<open>
  An \<open>eval.ExpressionSet\<close> is a slice of expressions, an interface value each: a service,
  an endpoint or a file server here, or \<open>nil\<close> (what \<open>make\<close> fills a new slice with).
\<close>

datatype 'e Expression =
  ServiceE "'e ServiceExpr" | EndpointE 'e | FileServerE FileServerExpr

type_synonym 'e ExpressionSet = "'e Expression option list"

text \<open>
  The comparator handed to \<open>sort.SliceStable\<close>:
  \<^verbatim>\<open>func(i, j int) bool {
    if r.HTTPServices[j].ParentName == r.HTTPServices[i].Name() { return true }
    return false }\<close>
\<close>

definition parent_first :: "'e ServiceExpr less_func" where
  "parent_first services i j \<longleftrightarrow>
     (if ParentName (services ! j) = Name (services ! i) then True else False)"

text \<open>
  One round of the loop \<open>for i, svc := range r.HTTPServices\<close>: \<open>services[i] = svc\<close>, then
  every endpoint and every file server of the service is appended to its batch.
\<close>

definition walk_service ::
  "nat \<Rightarrow> 'e ServiceExpr \<Rightarrow> 'e ExpressionSet \<times> 'e ExpressionSet \<times> 'e ExpressionSet \<Rightarrow>
   'e ExpressionSet \<times> 'e ExpressionSet \<times> 'e ExpressionSet" where
  "walk_service i svc = (\<lambda>(services, endpoints, servers).
     (services[i := Some (ServiceE svc)],
      fold (\<lambda>e endpoints. endpoints @ [Some (EndpointE e)]) (HTTPEndpoints svc) endpoints,
      fold (\<lambda>s servers. servers @ [Some (FileServerE s)]) (FileServers svc) servers))"

text \<open>
  \<open>WalkSets\<close>. The batch of services is made with the length the slice has before the
  sort; the sort stores its result in the root; the loop runs over the sorted slice. The
  visitor \<open>walk\<close> is a parameter: what a call of it does is a change of the visitor's
  own state \<open>'w\<close>; the error it returns is dropped by \<open>WalkSets\<close>. The result is the
  root as \<open>WalkSets\<close> leaves it and the state of the visitor after the three calls.
\<close>

definition WalkSets :: "('e ExpressionSet \<Rightarrow> 'w \<Rightarrow> 'w) \<Rightarrow> 'e RootExpr \<Rightarrow> 'w \<Rightarrow> 'e RootExpr \<times> 'w" where
  "WalkSets walk r w =
     (let services = replicate (length (HTTPServices r)) None;
          r = r\<lparr>HTTPServices := SliceStable (HTTPServices r) parent_first\<rparr>;
          (services, endpoints, servers) =
             fold (\<lambda>i. walk_service i (HTTPServices r ! i)) [0..<length (HTTPServices r)]
               (services, [], []);
          w = walk services w;
          w = walk endpoints w;
          w = walk servers w
      in (r, w))"

text \<open>A service with a name and a parent name, and nothing else.\<close>

definition service_named :: "string \<Rightarrow> string \<Rightarrow> 'e ServiceExpr" where
  "service_named name parent =
     \<lparr>Name = name, Path = '''', ParentName = parent, HTTPEndpoints = [], FileServers = []\<rparr>"

subsection \<open>The sort keeps the length of the slice\<close>

lemma length_Swap [simp]: "length (Swap i j data) = length data"
  by (simp add: Swap_def)

lemma length_fold_same:
  assumes "\<And>x ys. length (f x ys) = length ys"
  shows "length (fold f xs ys) = length ys"
  using assms by (induction xs arbitrary: ys) simp_all

lemma length_insertion_loop [simp]: "length (insertion_loop Less a j data) = length data"
  by (induction Less a j data rule: insertion_loop.induct)
     (subst insertion_loop.simps, simp)

lemma length_insertionSort [simp]: "length (insertionSort Less a b data) = length data"
  by (simp add: insertionSort_def length_fold_same)

lemma length_swapRange [simp]: "length (swapRange a b n data) = length data"
  by (simp add: swapRange_def length_fold_same)

lemma length_rotate_loop [simp]: "length (rotate_loop m i j data) = length data"
  by (induction m i j data rule: rotate_loop.induct)
     (subst rotate_loop.simps, simp)

lemma length_rotate [simp]: "length (rotate a m b data) = length data"
  by (simp add: rotate_def)

lemma length_symMerge [simp]: "length (symMerge Less a m b data) = length data"
proof (induction Less a m b data rule: symMerge.induct)
  case (1 Less a m b data)
  show ?case
    by (subst symMerge.simps) (simp add: Let_def length_fold_same 1)
qed

lemma length_stable_blocks [simp]: "length (stable_blocks Less n a b data) = length data"
  by (induction Less n a b data rule: stable_blocks.induct)
     (subst stable_blocks.simps, simp)

lemma length_merge_blocks [simp]: "length (merge_blocks Less n k a b data) = length data"
  by (induction Less n k a b data rule: merge_blocks.induct)
     (subst merge_blocks.simps, simp add: Let_def)

lemma length_merge_passes [simp]: "length (merge_passes Less n k data) = length data"
  by (induction Less n k data rule: merge_passes.induct)
     (subst merge_passes.simps, simp)

lemma length_SliceStable [simp]: "length (SliceStable slice Less) = length slice"
  by (simp add: SliceStable_def stable_def)

subsection \<open>The sort rearranges the slice\<close>

text \<open>
  Every index that the algorithm hands to \<open>Swap\<close> lies inside the slice, so the result
  has the elements of the slice, each as often as before.
\<close>

lemma mset_Swap: "i < length data \<Longrightarrow> j < length data \<Longrightarrow> mset (Swap i j data) = mset data"
  unfolding Swap_def by (rule mset_swap)

lemma mset_fold_same:
  assumes "\<And>x ys. x \<in> set xs \<Longrightarrow> length ys = n \<Longrightarrow> mset (f x ys) = mset ys \<and> length (f x ys) = n"
    and "length ys = n"
  shows "mset (fold f xs ys) = mset ys \<and> length (fold f xs ys) = n"
  using assms
proof (induction xs arbitrary: ys)
  case Nil
  then show ?case by simp
next
  case (Cons x xs)
  from Cons.prems(1) [of x ys] Cons.prems(2)
  have 1: "mset (f x ys) = mset ys" and 2: "length (f x ys) = n" by simp_all
  have "mset (fold f xs (f x ys)) = mset (f x ys) \<and> length (fold f xs (f x ys)) = n"
    using Cons.prems(1) 2 by (intro Cons.IH) auto
  with 1 show ?case by simp
qed

lemma mset_insertion_loop:
  "j < length data \<Longrightarrow> mset (insertion_loop Less a j data) = mset data"
proof (induction Less a j data rule: insertion_loop.induct)
  case (1 Less a j data)
  show ?case
  proof (cases "j > a \<and> Less data j (j - 1)")
    case True
    with "1.prems" have "mset (Swap j (j - 1) data) = mset data" by (intro mset_Swap) auto
    moreover from True "1.prems" "1.IH"
    have "mset (insertion_loop Less a (j - 1) (Swap j (j - 1) data)) = mset (Swap j (j - 1) data)"
      by simp
    ultimately show ?thesis using True by (subst insertion_loop.simps) simp
  next
    case False
    then show ?thesis by (subst insertion_loop.simps) auto
  qed
qed

lemma mset_insertionSort:
  "b \<le> length data \<Longrightarrow> mset (insertionSort Less a b data) = mset data"
  unfolding insertionSort_def
  using mset_fold_same [of "[a + 1..<b]" "length data" "\<lambda>i. insertion_loop Less a i" data]
  by (simp add: mset_insertion_loop)

lemma mset_swapRange:
  "a + n \<le> length data \<Longrightarrow> b + n \<le> length data \<Longrightarrow> mset (swapRange a b n data) = mset data"
  unfolding swapRange_def
  using mset_fold_same [of "[0..<n]" "length data" "\<lambda>i. Swap (a + i) (b + i)" data]
  by (simp add: mset_Swap)

lemma mset_rotate_loop:
  "0 < i \<and> 0 < j \<or> i = j \<Longrightarrow> i \<le> m \<Longrightarrow> m + j \<le> length data \<Longrightarrow>
   mset (rotate_loop m i j data) = mset data"
proof (induction m i j data rule: rotate_loop.induct)
  case (1 m i j data)
  show ?case
  proof (cases "i \<noteq> j \<and> 0 < i \<and> 0 < j")
    case False
    with "1.prems" have "i = j" by auto
    with "1.prems" have "mset (swapRange (m - i) m i data) = mset data"
      by (intro mset_swapRange) auto
    with False show ?thesis by (subst rotate_loop.simps) auto
  next
    case True
    show ?thesis
    proof (cases "i > j")
      case gt: True
      have s: "mset (swapRange (m - i) m j data) = mset data"
        using "1.prems" gt by (intro mset_swapRange) auto
      have "mset (rotate_loop m (i - j) j (swapRange (m - i) m j data))
          = mset (swapRange (m - i) m j data)"
        using True gt "1.prems" by (intro "1.IH"(1)) auto
      with s True gt show ?thesis by (subst rotate_loop.simps) simp
    next
      case le: False
      have s: "mset (swapRange (m - i) (m + j - i) i data) = mset data"
        using "1.prems" le True by (intro mset_swapRange) auto
      have "mset (rotate_loop m i (j - i) (swapRange (m - i) (m + j - i) i data))
          = mset (swapRange (m - i) (m + j - i) i data)"
        using True le "1.prems" by (intro "1.IH"(2)) auto
      with s True le show ?thesis by (subst rotate_loop.simps) simp
    qed
  qed
qed

lemma mset_rotate:
  "a < m \<Longrightarrow> m < b \<Longrightarrow> b \<le> length data \<Longrightarrow> mset (rotate a m b data) = mset data"
  unfolding rotate_def by (rule mset_rotate_loop) auto

lemma search_left_bounds:
  "i \<le> j \<Longrightarrow> i \<le> search_left Less data a i j \<and> search_left Less data a i j \<le> j"
proof (induction Less data a i j rule: search_left.induct)
  case (1 Less data a i j)
  show ?case
  proof (cases "i < j")
    case False
    with "1.prems" show ?thesis by (subst (1 2) search_left.simps) simp
  next
    case True
    let ?h = "(i + j) div 2"
    from True have h: "i \<le> ?h" "?h < j" by auto
    show ?thesis
    proof (cases "Less data ?h a")
      case l: True
      from "1.IH"(1) [OF True refl l] h
      have "?h + 1 \<le> search_left Less data a (?h + 1) j \<and> search_left Less data a (?h + 1) j \<le> j"
        by simp
      with True l h show ?thesis by (subst (1 2) search_left.simps) (simp add: Let_def)
    next
      case l: False
      from "1.IH"(2) [OF True refl l] h
      have "i \<le> search_left Less data a i ?h \<and> search_left Less data a i ?h \<le> ?h"
        by simp
      with True l h show ?thesis by (subst (1 2) search_left.simps) (simp add: Let_def)
    qed
  qed
qed

lemma search_right_bounds:
  "i \<le> j \<Longrightarrow> i \<le> search_right Less data m i j \<and> search_right Less data m i j \<le> j"
proof (induction Less data m i j rule: search_right.induct)
  case (1 Less data m i j)
  show ?case
  proof (cases "i < j")
    case False
    with "1.prems" show ?thesis by (subst (1 2) search_right.simps) simp
  next
    case True
    let ?h = "(i + j) div 2"
    from True have h: "i \<le> ?h" "?h < j" by auto
    show ?thesis
    proof (cases "\<not> Less data m ?h")
      case l: True
      from "1.IH"(1) [OF True refl l] h
      have "?h + 1 \<le> search_right Less data m (?h + 1) j \<and> search_right Less data m (?h + 1) j \<le> j"
        by simp
      with True l h show ?thesis by (subst (1 2) search_right.simps) (simp add: Let_def)
    next
      case l: False
      from "1.IH"(2) [OF True refl l] h
      have "i \<le> search_right Less data m i ?h \<and> search_right Less data m i ?h \<le> ?h"
        by simp
      with True l h show ?thesis by (subst (1 2) search_right.simps) (simp add: Let_def)
    qed
  qed
qed

lemma search_sym_bounds:
  "start \<le> r \<Longrightarrow> start \<le> search_sym Less data p start r \<and> search_sym Less data p start r \<le> r"
proof (induction Less data p start r rule: search_sym.induct)
  case (1 Less data p start r)
  show ?case
  proof (cases "start < r")
    case False
    with "1.prems" show ?thesis by (subst (1 2) search_sym.simps) simp
  next
    case True
    let ?c = "(start + r) div 2"
    from True have h: "start \<le> ?c" "?c < r" by auto
    show ?thesis
    proof (cases "\<not> Less data (p - ?c) ?c")
      case l: True
      from "1.IH"(1) [OF True refl l] h
      have "?c + 1 \<le> search_sym Less data p (?c + 1) r \<and> search_sym Less data p (?c + 1) r \<le> r"
        by simp
      with True l h show ?thesis by (subst (1 2) search_sym.simps) (simp add: Let_def)
    next
      case l: False
      from "1.IH"(2) [OF True refl l] h
      have "start \<le> search_sym Less data p start ?c \<and> search_sym Less data p start ?c \<le> ?c"
        by simp
      with True l h show ?thesis by (subst (1 2) search_sym.simps) (simp add: Let_def)
    qed
  qed
qed

lemma mset_fold_Swap:
  assumes "\<And>k. k \<in> set ks \<Longrightarrow> f k < length data \<and> g k < length data"
  shows "mset (fold (\<lambda>k. Swap (f k) (g k)) ks data) = mset data"
proof -
  have "mset (fold (\<lambda>k. Swap (f k) (g k)) ks data) = mset data \<and>
      length (fold (\<lambda>k. Swap (f k) (g k)) ks data) = length data"
  proof (rule mset_fold_same)
    fix k ys
    assume "k \<in> set ks" and "length ys = length data"
    with assms [of k] show "mset (Swap (f k) (g k) ys) = mset ys \<and>
        length (Swap (f k) (g k) ys) = length data"
      by (simp add: mset_Swap)
  qed simp
  then show ?thesis by simp
qed

lemma symMerge_start_bounds:
  assumes "a < m" and "m < b"
  shows "symMerge_start Less a m b data \<le> m \<and>
         (a + b) div 2 + m - symMerge_start Less a m b data \<le> b"
proof (cases "m > (a + b) div 2")
  case True
  let ?mid = "(a + b) div 2"
  let ?n = "?mid + m"
  have s: "symMerge_start Less a m b data = search_sym Less data (?n - 1) (?n - b) ?mid"
    using True by (simp add: symMerge_start_def Let_def)
  from assms have "?n - b \<le> ?mid" by simp
  from search_sym_bounds [OF this, of Less data "?n - 1"] True assms
  show ?thesis unfolding s by linarith
next
  case False
  let ?mid = "(a + b) div 2"
  let ?n = "?mid + m"
  have s: "symMerge_start Less a m b data = search_sym Less data (?n - 1) a m"
    using False by (simp add: symMerge_start_def Let_def)
  from assms have "a \<le> m" by simp
  from search_sym_bounds [OF this, of Less data "?n - 1"] False assms
  show ?thesis unfolding s by linarith
qed

lemma mset_symMerge:
  "a < m \<Longrightarrow> m < b \<Longrightarrow> b \<le> length data \<Longrightarrow> mset (symMerge Less a m b data) = mset data"
proof (induction Less a m b data rule: symMerge.induct)
  case (1 Less a m b data)
  note amb = "1.prems"
  show ?case
  proof (cases "m - a = 1")
    case True
    let ?i = "search_left Less data a m b"
    from amb have "m \<le> b" by simp
    from search_left_bounds [OF this, of Less data a] have i: "?i \<le> b" by simp
    have "mset (fold (\<lambda>k. Swap k (k + 1)) [a..<?i - 1] data) = mset data"
      using i amb by (intro mset_fold_Swap) auto
    with True show ?thesis by (subst symMerge.simps) (simp add: Let_def)
  next
    case na: False
    show ?thesis
    proof (cases "b - m = 1")
      case True
      let ?i = "search_right Less data m a m"
      have "mset (fold (\<lambda>k. Swap k (k - 1)) (rev [?i + 1..<m + 1]) data) = mset data"
        using amb by (intro mset_fold_Swap) auto
      with na True show ?thesis by (subst symMerge.simps) (simp add: Let_def)
    next
      case nb: False
      define mid where "mid = (a + b) div 2"
      define n where "n = mid + m"
      define start where "start = symMerge_start Less a m b data"
      define e where "e = n - start"
      define data1 where "data1 = (if start < m \<and> m < e then rotate start m e data else data)"
      define data2 where
        "data2 = (if a < start \<and> start < mid then symMerge Less a start mid data1 else data1)"
      have eb: "e \<le> b"
        using symMerge_start_bounds [OF amb(1,2), of Less data]
        by (simp add: e_def n_def mid_def start_def)
      have midb: "mid \<le> b" using amb by (simp add: mid_def)
      have l1: "length data1 = length data" by (simp add: data1_def)
      have m1: "mset data1 = mset data"
        using eb amb by (simp add: data1_def mset_rotate)
      have l2: "length data2 = length data" by (simp add: data2_def l1)
      have m2: "mset data2 = mset data1"
      proof (cases "a < start \<and> start < mid")
        case True
        have "mset (symMerge Less a start mid data1) = mset data1"
          using True midb amb l1
          by (intro "1.IH"(1) [OF na nb mid_def n_def start_def e_def data1_def]) auto
        with True show ?thesis by (auto simp: data2_def)
      next
        case False
        then show ?thesis by (auto simp: data2_def)
      qed
      have m3: "mset (if mid < e \<and> e < b then symMerge Less mid e b data2 else data2) = mset data2"
      proof (cases "mid < e \<and> e < b")
        case True
        have "mset (symMerge Less mid e b data2) = mset data2"
          using True amb l2
          by (intro "1.IH"(2) [OF na nb mid_def n_def start_def e_def data1_def data2_def]) auto
        with True show ?thesis by auto
      next
        case False
        then show ?thesis by auto
      qed
      have "symMerge Less a m b data =
          (if mid < e \<and> e < b then symMerge Less mid e b data2 else data2)"
        using na nb
        by (subst symMerge.simps)
           (simp add: Let_def mid_def n_def start_def e_def data1_def data2_def)
      with m1 m2 m3 show ?thesis by simp
    qed
  qed
qed

lemma mset_stable_blocks:
  "n \<le> length data \<Longrightarrow> mset (stable_blocks Less n a b data) = mset data"
proof (induction Less n a b data rule: stable_blocks.induct)
  case (1 Less n a b data)
  show ?case
  proof (cases "b \<le> n")
    case True
    with "1.prems" have "mset (insertionSort Less a b data) = mset data"
      by (intro mset_insertionSort) simp
    moreover from "1.IH" True "1.prems"
    have "mset (stable_blocks Less n b (b + 20) (insertionSort Less a b data))
        = mset (insertionSort Less a b data)" by simp
    ultimately show ?thesis using True by (subst stable_blocks.simps) simp
  next
    case False
    with "1.prems" show ?thesis
      by (subst stable_blocks.simps) (simp add: mset_insertionSort)
  qed
qed

lemma blockSize_pos: "0 < blockSize k"
  by (simp add: blockSize_def)

lemma mset_merge_blocks:
  "n \<le> length data \<Longrightarrow> b = a + 2 * blockSize k \<Longrightarrow>
   mset (merge_blocks Less n k a b data) = mset data"
proof (induction Less n k a b data rule: merge_blocks.induct)
  case (1 Less n k a b data)
  show ?case
  proof (cases "b \<le> n")
    case True
    have s: "mset (symMerge Less a (a + blockSize k) b data) = mset data"
      using True "1.prems" blockSize_pos [of k] by (intro mset_symMerge) auto
    from "1.IH" [OF True] "1.prems"
    have "mset (merge_blocks Less n k b (b + 2 * blockSize k) (symMerge Less a (a + blockSize k) b data))
        = mset (symMerge Less a (a + blockSize k) b data)" by simp
    with s True show ?thesis by (subst merge_blocks.simps) simp
  next
    case False
    show ?thesis
    proof (cases "a + blockSize k < n")
      case True
      have "mset (symMerge Less a (a + blockSize k) n data) = mset data"
        using True "1.prems" blockSize_pos [of k] by (intro mset_symMerge) auto
      with False True show ?thesis by (subst merge_blocks.simps) (simp add: Let_def)
    next
      case nm: False
      with False show ?thesis by (subst merge_blocks.simps) (simp add: Let_def)
    qed
  qed
qed

lemma mset_merge_passes:
  "n \<le> length data \<Longrightarrow> mset (merge_passes Less n k data) = mset data"
proof (induction Less n k data rule: merge_passes.induct)
  case (1 Less n k data)
  show ?case
  proof (cases "blockSize k < n")
    case True
    have s: "mset (merge_blocks Less n k 0 (2 * blockSize k) data) = mset data"
      using "1.prems" by (intro mset_merge_blocks) auto
    from "1.IH" [OF True] "1.prems"
    have "mset (merge_passes Less n (k + 1) (merge_blocks Less n k 0 (2 * blockSize k) data))
        = mset (merge_blocks Less n k 0 (2 * blockSize k) data)" by simp
    with s True show ?thesis by (subst merge_passes.simps) simp
  next
    case False
    then show ?thesis by (subst merge_passes.simps) simp
  qed
qed

lemma mset_SliceStable: "mset (SliceStable slice Less) = mset slice"
  by (simp add: SliceStable_def stable_def mset_merge_passes mset_stable_blocks)

subsection \<open>A comparator that never holds\<close>

text \<open>
  \<open>quiet Less data n\<close>: \<open>Less(i, j)\<close> is false on \<open>data\<close> for all indices below \<open>n\<close>.
  Then no search moves its lower bound past an element, no element is swapped, and the
  slice stays as it is.
\<close>

definition quiet :: "'a less_func \<Rightarrow> 'a list \<Rightarrow> nat \<Rightarrow> bool" where
  "quiet Less data n \<longleftrightarrow> (\<forall>i j. i < n \<and> j < n \<longrightarrow> \<not> Less data i j)"

lemma quietD: "quiet Less data n \<Longrightarrow> i < n \<Longrightarrow> j < n \<Longrightarrow> \<not> Less data i j"
  by (simp add: quiet_def)

lemma fold_same:
  "(\<And>x. x \<in> set xs \<Longrightarrow> f x data = data) \<Longrightarrow> fold f xs data = data"
  by (induction xs) simp_all

lemma insertion_loop_quiet:
  "quiet Less data n \<Longrightarrow> j < n \<Longrightarrow> insertion_loop Less a j data = data"
  by (subst insertion_loop.simps) (auto dest: quietD [of Less data n j "j - 1"])

lemma insertionSort_quiet:
  "quiet Less data n \<Longrightarrow> b \<le> n \<Longrightarrow> insertionSort Less a b data = data"
  unfolding insertionSort_def by (rule fold_same) (simp add: insertion_loop_quiet)

lemma search_left_quiet:
  "quiet Less data n \<Longrightarrow> j \<le> n \<Longrightarrow> a < n \<Longrightarrow> search_left Less data a i j = i"
proof (induction Less data a i j rule: search_left.induct)
  case (1 Less data a i j)
  show ?case
  proof (cases "i < j")
    case False
    then show ?thesis by (subst search_left.simps) simp
  next
    case True
    let ?h = "(i + j) div 2"
    from True "1.prems" have h: "?h < n" by linarith
    with "1.prems" have l: "\<not> Less data ?h a" by (intro quietD [of Less data n]) auto
    from "1.IH"(2) [OF True refl l "1.prems"(1) _ "1.prems"(3)] h
    have "search_left Less data a i ?h = i" by simp
    with True l show ?thesis by (subst search_left.simps) (simp add: Let_def)
  qed
qed

lemma search_right_quiet:
  "quiet Less data n \<Longrightarrow> m < n \<Longrightarrow> j \<le> n \<Longrightarrow> i \<le> j \<Longrightarrow> search_right Less data m i j = j"
proof (induction Less data m i j rule: search_right.induct)
  case (1 Less data m i j)
  show ?case
  proof (cases "i < j")
    case False
    with "1.prems" show ?thesis by (subst search_right.simps) simp
  next
    case True
    let ?h = "(i + j) div 2"
    from True "1.prems" have h: "?h < n" "?h + 1 \<le> j" by linarith+
    with "1.prems" have l: "\<not> Less data m ?h" by (intro quietD [of Less data n]) auto
    from "1.IH"(1) [OF True refl l "1.prems"(1,2,3)] h
    have "search_right Less data m (?h + 1) j = j" by simp
    with True l show ?thesis by (subst search_right.simps) (simp add: Let_def)
  qed
qed

lemma search_sym_quiet:
  "quiet Less data n \<Longrightarrow> (\<And>c. start \<le> c \<Longrightarrow> c < r \<Longrightarrow> p - c < n \<and> c < n) \<Longrightarrow> start \<le> r \<Longrightarrow>
   search_sym Less data p start r = r"
proof (induction Less data p start r rule: search_sym.induct)
  case (1 Less data p start r)
  show ?case
  proof (cases "start < r")
    case False
    with "1.prems" show ?thesis by (subst search_sym.simps) simp
  next
    case True
    let ?c = "(start + r) div 2"
    from True have c: "start \<le> ?c" "?c < r" by linarith+
    from "1.prems"(2) [OF c] have "p - ?c < n \<and> ?c < n" .
    with "1.prems"(1) have l: "\<not> Less data (p - ?c) ?c" by (intro quietD [of Less data n]) auto
    have "search_sym Less data p (?c + 1) r = r"
    proof (rule "1.IH"(1) [OF True refl l "1.prems"(1)])
      fix c' assume "?c + 1 \<le> c'" and "c' < r"
      with c show "p - c' < n \<and> c' < n" by (intro "1.prems"(2)) auto
    next
      from c show "?c + 1 \<le> r" by simp
    qed
    with True l show ?thesis by (subst search_sym.simps) (simp add: Let_def)
  qed
qed

lemma symMerge_start_quiet:
  assumes q: "quiet Less data n" and amb: "a < m" "m < b" "b \<le> n"
  shows "symMerge_start Less a m b data = (if m > (a + b) div 2 then (a + b) div 2 else m)"
proof (cases "m > (a + b) div 2")
  case True
  let ?mid = "(a + b) div 2"
  let ?n = "?mid + m"
  have "search_sym Less data (?n - 1) (?n - b) ?mid = ?mid"
  proof (rule search_sym_quiet [OF q])
    fix c assume "?n - b \<le> c" and "c < ?mid"
    with amb True show "?n - 1 - c < n \<and> c < n" by linarith
  next
    from amb show "?n - b \<le> ?mid" by simp
  qed
  with True show ?thesis by (simp add: symMerge_start_def Let_def)
next
  case False
  let ?mid = "(a + b) div 2"
  let ?n = "?mid + m"
  have "search_sym Less data (?n - 1) a m = m"
  proof (rule search_sym_quiet [OF q])
    fix c assume "a \<le> c" and "c < m"
    with amb False show "?n - 1 - c < n \<and> c < n" by linarith
  next
    from amb show "a \<le> m" by simp
  qed
  with False show ?thesis by (simp add: symMerge_start_def Let_def)
qed

lemma symMerge_quiet:
  "quiet Less data n \<Longrightarrow> a < m \<Longrightarrow> m < b \<Longrightarrow> b \<le> n \<Longrightarrow> symMerge Less a m b data = data"
proof (induction Less a m b data rule: symMerge.induct)
  case (1 Less a m b data)
  note q = "1.prems"(1) and amb = "1.prems"(2,3,4)
  show ?case
  proof (cases "m - a = 1")
    case True
    from amb have "search_left Less data a m b = m" by (intro search_left_quiet [OF q]) auto
    with True show ?thesis by (subst symMerge.simps) (simp add: Let_def)
  next
    case na: False
    show ?thesis
    proof (cases "b - m = 1")
      case True
      from amb have "search_right Less data m a m = m" by (intro search_right_quiet [OF q]) auto
      with na True show ?thesis by (subst symMerge.simps) (simp add: Let_def)
    next
      case nb: False
      define mid where "mid = (a + b) div 2"
      define n' where "n' = mid + m"
      define start where "start = symMerge_start Less a m b data"
      define e where "e = n' - start"
      define data1 where "data1 = (if start < m \<and> m < e then rotate start m e data else data)"
      define data2 where
        "data2 = (if a < start \<and> start < mid then symMerge Less a start mid data1 else data1)"
      have st: "start = (if m > mid then mid else m)"
        unfolding start_def mid_def by (rule symMerge_start_quiet [OF q amb])
      have e: "e = (if m > mid then m else mid)" by (simp add: e_def n'_def st)
      have d1: "data1 = data" by (auto simp: data1_def st e)
      have midb: "mid \<le> b" using amb by (simp add: mid_def)
      have d2: "data2 = data"
      proof (cases "a < start \<and> start < mid")
        case True
        have "symMerge Less a start mid data1 = data1"
        proof (rule "1.IH"(1) [OF na nb mid_def n'_def start_def e_def data1_def True])
          show "quiet Less data1 n" using q d1 by simp
          show "a < start" "start < mid" using True by simp_all
          show "mid \<le> n" using midb amb by simp
        qed
        with True d1 show ?thesis by (auto simp: data2_def)
      next
        case False
        with d1 show ?thesis by (auto simp: data2_def)
      qed
      have d3: "(if mid < e \<and> e < b then symMerge Less mid e b data2 else data2) = data"
      proof (cases "mid < e \<and> e < b")
        case True
        have "symMerge Less mid e b data2 = data2"
        proof (rule "1.IH"(2) [OF na nb mid_def n'_def start_def e_def data1_def data2_def True])
          show "quiet Less data2 n" using q d2 by simp
          show "mid < e" "e < b" using True by simp_all
          show "b \<le> n" using amb by simp
        qed
        with True d2 show ?thesis by auto
      next
        case False
        with d2 show ?thesis by auto
      qed
      have "symMerge Less a m b data =
          (if mid < e \<and> e < b then symMerge Less mid e b data2 else data2)"
        using na nb
        by (subst symMerge.simps)
           (simp add: Let_def mid_def n'_def start_def e_def data1_def data2_def)
      with d3 show ?thesis by simp
    qed
  qed
qed

lemma stable_blocks_quiet:
  "quiet Less data n \<Longrightarrow> stable_blocks Less n a b data = data"
proof (induction Less n a b data rule: stable_blocks.induct)
  case (1 Less n a b data)
  show ?case
  proof (cases "b \<le> n")
    case True
    with "1.prems" have i: "insertionSort Less a b data = data" by (intro insertionSort_quiet)
    from "1.IH" [OF True] "1.prems" i
    have "stable_blocks Less n b (b + 20) (insertionSort Less a b data) = data" by simp
    with True show ?thesis by (subst stable_blocks.simps) simp
  next
    case False
    with "1.prems" show ?thesis
      by (subst stable_blocks.simps) (simp add: insertionSort_quiet)
  qed
qed

lemma merge_blocks_quiet:
  "quiet Less data n \<Longrightarrow> b = a + 2 * blockSize k \<Longrightarrow> merge_blocks Less n k a b data = data"
proof (induction Less n k a b data rule: merge_blocks.induct)
  case (1 Less n k a b data)
  show ?case
  proof (cases "b \<le> n")
    case True
    have s: "symMerge Less a (a + blockSize k) b data = data"
      using True "1.prems" blockSize_pos [of k] by (intro symMerge_quiet [of Less data n]) auto
    from "1.IH" [OF True] "1.prems" s
    have "merge_blocks Less n k b (b + 2 * blockSize k) (symMerge Less a (a + blockSize k) b data)
        = data" by simp
    with True show ?thesis by (subst merge_blocks.simps) simp
  next
    case False
    show ?thesis
    proof (cases "a + blockSize k < n")
      case True
      have "symMerge Less a (a + blockSize k) n data = data"
        using True "1.prems" blockSize_pos [of k] by (intro symMerge_quiet [of Less data n]) auto
      with False True show ?thesis by (subst merge_blocks.simps) (simp add: Let_def)
    next
      case nm: False
      with False show ?thesis by (subst merge_blocks.simps) (simp add: Let_def)
    qed
  qed
qed

lemma merge_passes_quiet:
  "quiet Less data n \<Longrightarrow> merge_passes Less n k data = data"
proof (induction Less n k data rule: merge_passes.induct)
  case (1 Less n k data)
  show ?case
  proof (cases "blockSize k < n")
    case True
    have s: "merge_blocks Less n k 0 (2 * blockSize k) data = data"
      using "1.prems" by (intro merge_blocks_quiet) auto
    from "1.IH" [OF True] "1.prems" s
    have "merge_passes Less n (k + 1) (merge_blocks Less n k 0 (2 * blockSize k) data) = data"
      by simp
    with True show ?thesis by (subst merge_passes.simps) simp
  next
    case False
    then show ?thesis by (subst merge_passes.simps) simp
  qed
qed

lemma SliceStable_quiet: "quiet Less slice (length slice) \<Longrightarrow> SliceStable slice Less = slice"
  by (simp add: SliceStable_def stable_def merge_passes_quiet stable_blocks_quiet)

lemma parent_first_quiet:
  assumes "\<forall>s\<in>set services. \<forall>t\<in>set services. ParentName t \<noteq> Name s"
  shows "quiet parent_first services (length services)"
  using assms by (auto simp: quiet_def parent_first_def)

subsection \<open>The three batches\<close>

lemma fold_append_each: "fold (\<lambda>x acc. acc @ [g x]) xs acc = acc @ map g xs"
  by (induction xs arbitrary: acc) simp_all

lemma walk_service_eq:
  "walk_service i svc (services, endpoints, servers) =
     (services[i := Some (ServiceE svc)],
      endpoints @ map (\<lambda>e. Some (EndpointE e)) (HTTPEndpoints svc),
      servers @ map (\<lambda>s. Some (FileServerE s)) (FileServers svc))"
  by (simp add: walk_service_def fold_append_each)

lemma update_filled_prefix:
  assumes "k < n" and "length ys = k"
  shows "(ys @ replicate (n - k) None)[k := Some v] = (ys @ [Some v]) @ replicate (n - Suc k) None"
proof -
  from assms have "replicate (n - k) None = None # replicate (n - Suc k) (None :: 'a option)"
    by (cases "n - k") (simp_all add: Suc_diff_Suc)
  with assms show ?thesis by (simp add: list_update_append)
qed

lemma walk_loop_prefix:
  assumes "k \<le> length xs"
  shows "fold (\<lambda>i. walk_service i (xs ! i)) [0..<k] (replicate (length xs) None, [], []) =
     (map (\<lambda>svc. Some (ServiceE svc)) (take k xs) @ replicate (length xs - k) None,
      concat (map (\<lambda>svc. map (\<lambda>e. Some (EndpointE e)) (HTTPEndpoints svc)) (take k xs)),
      concat (map (\<lambda>svc. map (\<lambda>s. Some (FileServerE s)) (FileServers svc)) (take k xs)))"
  using assms
proof (induction k)
  case 0
  then show ?case by simp
next
  case (Suc k)
  then have k: "k < length xs" by simp
  have t: "take (Suc k) xs = take k xs @ [xs ! k]"
    using k by (simp add: take_Suc_conv_app_nth)
  have l: "length (map (\<lambda>svc. Some (ServiceE svc)) (take k xs)) = k"
    using k by simp
  show ?case
    using Suc.IH k
    by (simp add: walk_service_eq t update_filled_prefix [OF k l] del: replicate_Suc)
qed

lemma walk_loop:
  "n = length xs \<Longrightarrow>
   fold (\<lambda>i. walk_service i (xs ! i)) [0..<n] (replicate n None, [], []) =
     (map (\<lambda>svc. Some (ServiceE svc)) xs,
      concat (map (\<lambda>svc. map (\<lambda>e. Some (EndpointE e)) (HTTPEndpoints svc)) xs),
      concat (map (\<lambda>svc. map (\<lambda>s. Some (FileServerE s)) (FileServers svc)) xs))"
  using walk_loop_prefix [of "length xs" xs] by simp

text \<open>
  A root for evaluation: the service \<open>child\<close>, whose parent is \<open>parent\<close>, is declared
  before \<open>parent\<close>; each has endpoints and a file server.
\<close>

definition file_server_of :: "string \<Rightarrow> FileServerExpr" where
  "file_server_of file =
     \<lparr>Service = None, Description = '''', FilePath = file, RequestPath = ''/''\<rparr>"

definition child_service :: "nat ServiceExpr" where
  "child_service =
     \<lparr>Name = ''child'', Path = '''', ParentName = ''parent'', HTTPEndpoints = [1, 2],
      FileServers = [file_server_of ''child.html'']\<rparr>"

definition parent_service :: "nat ServiceExpr" where
  "parent_service =
     \<lparr>Name = ''parent'', Path = '''', ParentName = '''', HTTPEndpoints = [3],
      FileServers = [file_server_of ''parent.html'']\<rparr>"

definition root_of_services :: "'e ServiceExpr list \<Rightarrow> 'e RootExpr" where
  "root_of_services services =
     \<lparr>Design = None, Path = '''', Consumes = [], Produces = [], HTTPServices = services,
      params = None, headers = None\<rparr>"

lemma SliceStable_child_parent:
  "SliceStable [child_service, parent_service] parent_first = [parent_service, child_service]"
  by code_simp

lemma no_parent_among_parents:
  "\<forall>s\<in>set [parent_service, parent_service\<lparr>Name := ''other''\<rparr>].
     \<forall>t\<in>set [parent_service, parent_service\<lparr>Name := ''other''\<rparr>]. ParentName t \<noteq> Name s"
  by (simp add: parent_service_def)

text \<open>
  Claim C4. \<open>WalkSets\<close> returns for every root and every visitor (there is no failure
  outcome), and calls the visitor three times: first with the services in sorted order
  (no entry of the batch is left \<open>nil\<close>), then with the endpoints of all services,
  service by service in sorted order and in declaration order within a service, then with
  the file servers in the same arrangement. The root it leaves holds the sorted services.
  The sorted services are the services of the root, each as often as before, rearranged;
  and when no service names another service of the root as its parent, they are in
  declaration order.
\<close>

theorem WalkSets_three_batches:
  "WalkSets walk r w =
     (let sorted = SliceStable (HTTPServices r) parent_first;
          services = map (\<lambda>svc. Some (ServiceE svc)) sorted;
          endpoints = concat (map (\<lambda>svc. map (\<lambda>e. Some (EndpointE e)) (HTTPEndpoints svc)) sorted);
          servers = concat (map (\<lambda>svc. map (\<lambda>s. Some (FileServerE s)) (FileServers svc)) sorted)
      in (r\<lparr>HTTPServices := sorted\<rparr>, walk servers (walk endpoints (walk services w)))) \<and>
   mset (SliceStable (HTTPServices r) parent_first) = mset (HTTPServices r) \<and>
   ((\<forall>s\<in>set (HTTPServices r). \<forall>t\<in>set (HTTPServices r). ParentName t \<noteq> Name s) \<longrightarrow>
      SliceStable (HTTPServices r) parent_first = HTTPServices r)"
proof (intro conjI impI)
  let ?sorted = "SliceStable (HTTPServices r) parent_first"
  have "HTTPServices (r\<lparr>HTTPServices := ?sorted\<rparr>) = ?sorted"
    and "length (HTTPServices r) = length ?sorted"
    by simp_all
  then show "WalkSets walk r w =
     (let sorted = SliceStable (HTTPServices r) parent_first;
          services = map (\<lambda>svc. Some (ServiceE svc)) sorted;
          endpoints = concat (map (\<lambda>svc. map (\<lambda>e. Some (EndpointE e)) (HTTPEndpoints svc)) sorted);
          servers = concat (map (\<lambda>svc. map (\<lambda>s. Some (FileServerE s)) (FileServers svc)) sorted)
      in (r\<lparr>HTTPServices := sorted\<rparr>, walk servers (walk endpoints (walk services w))))"
    unfolding WalkSets_def Let_def by (simp add: walk_loop)
next
  show "mset (SliceStable (HTTPServices r) parent_first) = mset (HTTPServices r)"
    by (rule mset_SliceStable)
next
  assume "\<forall>s\<in>set (HTTPServices r). \<forall>t\<in>set (HTTPServices r). ParentName t \<noteq> Name s"
  then show "SliceStable (HTTPServices r) parent_first = HTTPServices r"
    by (intro SliceStable_quiet parent_first_quiet)
qed

text \<open>
  At the root with \<open>child\<close> declared before \<open>parent\<close> the sort moves the parent to the
  front, and the three batches follow the sorted order; two services without a parent
  stay in declaration order.
\<close>

theorem WalkSets_three_batches_witness:
  "WalkSets (\<lambda>batch trace. trace @ [batch])
     (root_of_services [child_service, parent_service]) []
   = (root_of_services [parent_service, child_service],
      [[Some (ServiceE parent_service), Some (ServiceE child_service)],
       [Some (EndpointE 3), Some (EndpointE 1), Some (EndpointE 2)],
       [Some (FileServerE (file_server_of ''parent.html'')),
        Some (FileServerE (file_server_of ''child.html''))]]) \<and>
   SliceStable [parent_service, parent_service\<lparr>Name := ''other''\<rparr>] parent_first
     = [parent_service, parent_service\<lparr>Name := ''other''\<rparr>]"
proof -
  have 1: "HTTPServices (root_of_services [child_service, parent_service :: nat ServiceExpr])
      = [child_service, parent_service]"
    and 2: "HTTPServices (root_of_services [parent_service, parent_service\<lparr>Name := ''other''\<rparr>])
      = [parent_service, parent_service\<lparr>Name := ''other''\<rparr>]"
    by (simp_all add: root_of_services_def)
  have e: "HTTPEndpoints child_service = [1, 2]" "HTTPEndpoints parent_service = [3]"
    "FileServers child_service = [file_server_of ''child.html'']"
    "FileServers parent_service = [file_server_of ''parent.html'']"
    by (simp_all add: child_service_def parent_service_def)
  have u: "(root_of_services [child_service, parent_service])
      \<lparr>HTTPServices := [parent_service, child_service]\<rparr>
      = root_of_services [parent_service, child_service]"
    by (simp add: root_of_services_def)
  from WalkSets_three_batches [of "\<lambda>batch trace. trace @ [batch]"
      "root_of_services [child_service, parent_service]" "[]"]
  have a: "WalkSets (\<lambda>batch trace. trace @ [batch])
     (root_of_services [child_service, parent_service]) []
   = (root_of_services [parent_service, child_service],
      [[Some (ServiceE parent_service), Some (ServiceE child_service)],
       [Some (EndpointE 3), Some (EndpointE 1), Some (EndpointE 2)],
       [Some (FileServerE (file_server_of ''parent.html'')),
        Some (FileServerE (file_server_of ''child.html''))]])"
    by (simp add: 1 SliceStable_child_parent e u Let_def)
  from WalkSets_three_batches [of "\<lambda>batch trace. trace @ [batch]"
      "root_of_services [parent_service, parent_service\<lparr>Name := ''other''\<rparr>]" "[]"]
    no_parent_among_parents
  have b: "SliceStable [parent_service, parent_service\<lparr>Name := ''other''\<rparr>] parent_first
     = [parent_service, parent_service\<lparr>Name := ''other''\<rparr>]"
    unfolding 2 by blast
  from a b show ?thesis by simp
qed

text \<open>
  Claim C1 fails on the code. The services \<open>child\<close> (whose parent is \<open>parent\<close>),
  \<open>other\<close> and \<open>parent\<close>, declared in this order, are a single level of nesting. The
  insertion sort compares neighbours only: \<open>Less(1, 0)\<close> and \<open>Less(2, 1)\<close> are both false,
  nothing moves, and the batch of services the visitor gets first has the child before its
  parent.
\<close>

theorem WalkSets_child_before_parent:
  "WalkSets (\<lambda>batch trace. trace @ [batch])
     (empty_root\<lparr>HTTPServices :=
        [service_named ''child'' ''parent'', service_named ''other'' '''',
         service_named ''parent'' '''']\<rparr>) []
   = (empty_root\<lparr>HTTPServices :=
        [service_named ''child'' ''parent'', service_named ''other'' '''',
         service_named ''parent'' '''']\<rparr>,
      [[Some (ServiceE (service_named ''child'' ''parent'')),
        Some (ServiceE (service_named ''other'' '''')),
        Some (ServiceE (service_named ''parent'' ''''))], [], []])"
  by code_simp

section \<open>Name mapping: \<open>NameMap\<close> (root.go)\<close>

text \<open>
  \<open>strings.Index(s, sep)\<close> for a one-byte separator: the index of the first occurrence,
  \<open>None\<close> for Go's \<open>-1\<close>.
\<close>

fun Index :: "string \<Rightarrow> char \<Rightarrow> nat option" where
  "Index [] sep = None"
| "Index (c # s) sep = (if c = sep then Some 0 else map_option Suc (Index s sep))"

lemma Index_Some_less: "Index s sep = Some m \<Longrightarrow> m < length s"
  by (induction s arbitrary: m) (auto split: if_splits)

text \<open>
  \<open>strings.Split(s, sep)\<close> for a one-byte separator, after the loop of \<open>genSplit\<close>:
  while the separator occurs at index \<open>m\<close>, emit \<open>s[:m]\<close> and go on with \<open>s[m+1:]\<close>;
  the last piece is what remains.
\<close>

function Split :: "string \<Rightarrow> char \<Rightarrow> string list" where
  "Split s sep =
     (case Index s sep of
        None \<Rightarrow> [s]
      | Some m \<Rightarrow> take m s # Split (drop (m + 1) s) sep)"
  by pat_completeness auto
termination
  by (relation "measure (\<lambda>(s, sep). length s)") (auto dest: Index_Some_less)

declare Split.simps [simp del]

text \<open>
  \<open>NameMap\<close>: \<open>elems[0]\<close> is the attribute name, \<open>elems[1]\<close> the element name when
  there are at least two pieces. Indexing an empty slice would panic.
\<close>

definition NameMap :: "string \<Rightarrow> panic + (string \<times> string)" where
  "NameMap encoded =
     (let elems = Split encoded CHR '':'' in
      if length elems = 0 then Inl IndexOutOfRange
      else
        let attName = elems ! 0;
            name = (if length elems > 1 then elems ! 1 else attName)
        in Inr (attName, name))"

subsection \<open>Facts about \<open>Split\<close>\<close>

lemma Index_None_iff: "Index s sep = None \<longleftrightarrow> sep \<notin> set s"
  by (induction s) auto

lemma Index_Some_takeWhile:
  "Index s sep = Some m \<Longrightarrow> take m s = takeWhile (\<lambda>c. c \<noteq> sep) s"
  by (induction s arbitrary: m) (auto split: if_splits)

lemma Index_Some_dropWhile:
  "Index s sep = Some m \<Longrightarrow> drop (Suc m) s = tl (dropWhile (\<lambda>c. c \<noteq> sep) s)"
  by (induction s arbitrary: m) (auto split: if_splits)

lemma Split_no_sep: "sep \<notin> set s \<Longrightarrow> Split s sep = [s]"
  by (subst Split.simps) (simp add: Index_None_iff [symmetric])

lemma Split_sep:
  "sep \<in> set s \<Longrightarrow>
   Split s sep = takeWhile (\<lambda>c. c \<noteq> sep) s # Split (tl (dropWhile (\<lambda>c. c \<noteq> sep) s)) sep"
proof -
  assume "sep \<in> set s"
  then obtain m where m: "Index s sep = Some m"
    using Index_None_iff [of s sep] by (cases "Index s sep") auto
  show ?thesis
    by (subst Split.simps) (simp add: m Index_Some_takeWhile [OF m] Index_Some_dropWhile [OF m])
qed

lemma Split_not_Nil: "Split s sep \<noteq> []"
  by (subst Split.simps) (simp split: option.splits)

lemma hd_Split: "hd (Split s sep) = takeWhile (\<lambda>c. c \<noteq> sep) s"
proof (cases "sep \<in> set s")
  case True
  then show ?thesis by (simp add: Split_sep)
next
  case False
  then have h: "takeWhile (\<lambda>c. c \<noteq> sep) s = s"
    by (induction s) auto
  show ?thesis unfolding Split_no_sep [OF False] h by simp
qed

subsection \<open>What \<open>NameMap\<close> returns\<close>

text \<open>
  Claim C3, as the code has it: \<open>NameMap\<close> never panics. The attribute name is the
  token up to its first colon (the whole token when it has none). The element name is the
  token itself when it has no colon, and otherwise the piece between the first colon and
  the second one (up to the end of the token when there is only one colon): every colon
  separates, and only the first two pieces are read.
\<close>

theorem NameMap_reads_first_two_pieces:
  "NameMap encoded =
     Inr (takeWhile (\<lambda>c. c \<noteq> CHR '':'') encoded,
          if CHR '':'' \<in> set encoded
          then takeWhile (\<lambda>c. c \<noteq> CHR '':'') (tl (dropWhile (\<lambda>c. c \<noteq> CHR '':'') encoded))
          else encoded)"
proof (cases "CHR '':'' \<in> set encoded")
  case True
  let ?rest = "tl (dropWhile (\<lambda>c. c \<noteq> CHR '':'') encoded)"
  have len: "length (Split ?rest CHR '':'') > 0"
    using Split_not_Nil [of ?rest "CHR '':''"] by simp
  have "Split ?rest CHR '':'' ! 0 = takeWhile (\<lambda>c. c \<noteq> CHR '':'') ?rest"
    using hd_Split [of ?rest "CHR '':''"] len by (simp add: hd_conv_nth)
  with True len show ?thesis
    by (simp add: NameMap_def Split_sep [OF True] Let_def)
next
  case False
  then have h: "takeWhile (\<lambda>c. c \<noteq> CHR '':'') encoded = encoded"
    by (induction encoded) auto
  show ?thesis
    unfolding NameMap_def Split_no_sep [OF False] h using False by simp
qed

text \<open>
  The example of claim C3 as written, \<open>NameMap("a:b:c") = ("a", "b:c")\<close>, is not what the
  code returns: the third piece is dropped.
\<close>

theorem NameMap_three_pieces_counterexample:
  "NameMap ''a:b:c'' = Inr (''a'', ''b'') \<and> NameMap ''a:b:c'' \<noteq> Inr (''a'', ''b:c'')"
  by (simp add: NameMap_def Split.simps Let_def)

section \<open>Wildcards: \<open>WildcardRegex\<close>, \<open>ExtractWildcards\<close> (root.go) and \<open>IsDir\<close> (file_server.go)\<close>

subsection \<open>Regular expressions as Go's \<open>regexp\<close> matches them\<close>

text \<open>
  The syntax tree of a regular expression, with the operators of \<open>regexp/syntax\<close> that
  \<open>WildcardRegex\<close> needs: a literal byte, a character class (a list of ranges), a
  concatenation, the greedy \<open>?\<close> and \<open>+\<close>, and a numbered capture group. Strings are
  byte strings; every byte that \<open>WildcardRegex\<close> mentions is ASCII, so a match never
  begins or ends inside a UTF-8 sequence.
\<close>

datatype regexp =
  Literal char
| CharClass "(char \<times> char) list"
| Concat regexp regexp
| Quest regexp
| Plus regexp
| Capture nat regexp

text \<open>The text captured by each group so far.\<close>

type_synonym captures = "nat \<rightharpoonup> string"

definition in_class :: "(char \<times> char) list \<Rightarrow> char \<Rightarrow> bool" where
  "in_class ranges c = list_ex (\<lambda>(lo, hi). lo \<le> c \<and> c \<le> hi) ranges"

text \<open>
  Backtracking search in the order of preference of Go's (Perl-like, leftmost-first)
  matching: \<open>match_here re s caps\<close> lists every way in which \<open>re\<close> matches a prefix of
  \<open>s\<close>, the preferred one first, each with the input left over and the captures. A
  greedy operator prefers to take more. An iteration of \<open>+\<close> that consumes nothing ends
  the repetition.
\<close>

function match_here :: "regexp \<Rightarrow> string \<Rightarrow> captures \<Rightarrow> (string \<times> captures) list" where
  "match_here (Literal x) s caps =
     (case s of [] \<Rightarrow> [] | c # t \<Rightarrow> if c = x then [(t, caps)] else [])"
| "match_here (CharClass ranges) s caps =
     (case s of [] \<Rightarrow> [] | c # t \<Rightarrow> if in_class ranges c then [(t, caps)] else [])"
| "match_here (Concat r1 r2) s caps =
     concat (map (\<lambda>tc. match_here r2 (fst tc) (snd tc)) (match_here r1 s caps))"
| "match_here (Quest r) s caps = match_here r s caps @ [(s, caps)]"
| "match_here (Plus r) s caps =
     concat (map (\<lambda>tc. (if length (fst tc) < length s then match_here (Plus r) (fst tc) (snd tc) else [])
                        @ [tc])
               (match_here r s caps))"
| "match_here (Capture i r) s caps =
     map (\<lambda>tc. (fst tc, (snd tc)(i \<mapsto> take (length s - length (fst tc)) s))) (match_here r s caps)"
  by pat_completeness auto
termination
  by (relation "inv_image (less_than <*lex*> less_than) (\<lambda>(r, s, caps). (size r, length s))") auto

text \<open>
  The leftmost match: the first position from which the expression matches, with the
  preferred match there. The result is the number of bytes skipped, the input after the
  match and the captures.
\<close>

fun find_from :: "regexp \<Rightarrow> string \<Rightarrow> (nat \<times> string \<times> captures) option" where
  "find_from re s =
     (case match_here re s Map.empty of
        (t, caps) # _ \<Rightarrow> Some (0, t, caps)
      | [] \<Rightarrow>
          (case s of
             [] \<Rightarrow> None
           | _ # s' \<Rightarrow> map_option (\<lambda>(k, t, caps). (Suc k, t, caps)) (find_from re s')))"

declare find_from.simps [simp del]

declare match_here.simps [simp del]

lemma match_here_length: "(t, c) \<in> set (match_here re s caps) \<Longrightarrow> length t \<le> length s"
proof (induction re s caps arbitrary: t c rule: match_here.induct)
  case (1 x s caps)
  then show ?case by (auto simp: match_here.simps(1) split: list.splits if_splits)
next
  case (2 ranges s caps)
  then show ?case by (auto simp: match_here.simps(2) split: list.splits if_splits)
next
  case (3 r1 r2 s caps)
  from "3.prems" obtain t1 c1 where m1: "(t1, c1) \<in> set (match_here r1 s caps)"
    and m2: "(t, c) \<in> set (match_here r2 t1 c1)"
    unfolding match_here.simps(3) by auto
  have "length t1 \<le> length s" using "3.IH"(1) [OF m1] .
  moreover have "length t \<le> length t1" using "3.IH"(2) [of "(t1, c1)" t c] m1 m2 by simp
  ultimately show ?case by simp
next
  case (4 r s caps)
  then show ?case unfolding match_here.simps(4) by auto
next
  case (5 r s caps)
  from "5.prems" obtain t1 c1 where m1: "(t1, c1) \<in> set (match_here r s caps)"
    and m2: "(length t1 < length s \<and> (t, c) \<in> set (match_here (Plus r) t1 c1)) \<or> (t, c) = (t1, c1)"
    unfolding match_here.simps(5) [of r s caps] by (auto split: if_splits)
  from m2 show ?case
  proof
    assume a: "length t1 < length s \<and> (t, c) \<in> set (match_here (Plus r) t1 c1)"
    with "5.IH"(2) [of "(t1, c1)" t c] m1 have "length t \<le> length t1" by simp
    with a show ?thesis by simp
  next
    assume "(t, c) = (t1, c1)"
    with "5.IH"(1) [OF m1] show ?thesis by simp
  qed
next
  case (6 i r s caps)
  then show ?case unfolding match_here.simps(6) by auto
qed

lemma find_from_length: "find_from re s = Some (k, t, caps) \<Longrightarrow> length t \<le> length s"
proof (induction s arbitrary: k)
  case Nil
  then obtain rest where "match_here re [] Map.empty = (t, caps) # rest"
    by (subst (asm) find_from.simps) (auto split: list.splits)
  then have "(t, caps) \<in> set (match_here re [] Map.empty)" by simp
  then show ?case by (rule match_here_length)
next
  case (Cons a s)
  show ?case
  proof (cases "match_here re (a # s) Map.empty")
    case Nil
    with Cons.prems obtain k' where "find_from re s = Some (k', t, caps)"
      by (subst (asm) find_from.simps) auto
    with Cons.IH show ?thesis by fastforce
  next
    case (Cons tc rest)
    with Cons.prems have "tc = (t, caps)"
      by (subst (asm) find_from.simps) (auto split: prod.splits)
    with Cons have "(t, caps) \<in> set (match_here re (a # s) Map.empty)" by simp
    then show ?thesis by (rule match_here_length)
  qed
qed


text \<open>
  The loop of \<open>allMatches\<close> (regexp.go) behind \<open>FindAllStringSubmatch(s, -1)\<close>. \<open>s\<close> is
  the input from \<open>pos\<close> on; \<open>adjacent\<close> says that the previous match ended at \<open>pos\<close>
  (\<open>prevMatchEnd == pos\<close>).
  \<^verbatim>\<open>matches := re.doExecute(...); if len(matches) == 0 { break }
  accept := true
  if matches[1] == pos {           // an empty match at pos
    if matches[0] == prevMatchEnd { accept = false }
    pos += width                   // one character on, or past the end
  } else { pos = matches[1] }
  prevMatchEnd = matches[1]
  if accept { deliver(re.pad(matches)) }\<close>
  The width of the step after an empty match is one byte here (one rune in Go); no match
  of \<open>WildcardRegex\<close> is empty. A delivered match is kept as the bytes skipped before it,
  the input it was searched in, the input after it and the captures.
\<close>

function allMatches :: "regexp \<Rightarrow> bool \<Rightarrow> string \<Rightarrow> (nat \<times> string \<times> string \<times> captures) list" where
  "allMatches re adjacent s =
     (case find_from re s of
        None \<Rightarrow> []
      | Some (k, t, caps) \<Rightarrow>
          if length t = length s then
            (let rest = (case s of [] \<Rightarrow> [] | _ # s' \<Rightarrow> allMatches re False s')
             in if adjacent then rest else (k, s, t, caps) # rest)
          else (k, s, t, caps) # allMatches re True t)"
  by pat_completeness auto
termination
  by (relation "measure (\<lambda>(re, adjacent, s). length s)") (auto dest: find_from_length)

declare allMatches.simps [simp del]

text \<open>
  A match as \<open>FindAllStringSubmatch\<close> returns it: the matched text, then the text of each
  group (the empty string for a group that took no part).
\<close>

fun NumSubexp :: "regexp \<Rightarrow> nat" where
  "NumSubexp (Literal x) = 0"
| "NumSubexp (CharClass ranges) = 0"
| "NumSubexp (Concat r1 r2) = max (NumSubexp r1) (NumSubexp r2)"
| "NumSubexp (Quest r) = NumSubexp r"
| "NumSubexp (Plus r) = NumSubexp r"
| "NumSubexp (Capture i r) = max i (NumSubexp r)"

definition submatches :: "regexp \<Rightarrow> nat \<times> string \<times> string \<times> captures \<Rightarrow> string list" where
  "submatches re = (\<lambda>(k, s, t, caps).
     take (length s - k - length t) (drop k s) #
     map (\<lambda>i. case caps i of None \<Rightarrow> [] | Some g \<Rightarrow> g) [1..<Suc (NumSubexp re)])"

definition FindAllStringSubmatch :: "regexp \<Rightarrow> string \<Rightarrow> string list list" where
  "FindAllStringSubmatch re s = map (submatches re) (allMatches re False s)"

definition MatchString :: "regexp \<Rightarrow> string \<Rightarrow> bool" where
  "MatchString re s \<longleftrightarrow> find_from re s \<noteq> None"

subsection \<open>The functions of the package\<close>

text \<open>
  \<open>WildcardRegex = regexp.MustCompile(`/{\*?([a-zA-Z0-9_]+)}`)\<close>: a slash, an opening
  brace (a literal, as no repetition count follows it), an optional star, group 1 with one
  or more bytes of the class, a closing brace.
\<close>

definition name_ranges :: "(char \<times> char) list" where
  "name_ranges = [(CHR ''a'', CHR ''z''), (CHR ''A'', CHR ''Z''), (CHR ''0'', CHR ''9''),
                  (CHR ''_'', CHR ''_'')]"

definition WildcardRegex :: regexp where
  "WildcardRegex =
     Concat (Literal CHR ''/'')
       (Concat (Literal CHR ''{'')
          (Concat (Quest (Literal CHR ''*''))
             (Concat (Capture 1 (Plus (CharClass name_ranges))) (Literal CHR ''}''))))"

text \<open>
  \<open>ExtractWildcards\<close>: \<open>wcs[i] = m[1]\<close> for every match \<open>m\<close>. Indexing a match without
  a second element would panic.
\<close>

fun wcs_loop :: "string list list \<Rightarrow> panic + string list" where
  "wcs_loop [] = Inr []"
| "wcs_loop (m # matches) =
     (if 1 < length m then
        (case wcs_loop matches of Inl p \<Rightarrow> Inl p | Inr wcs \<Rightarrow> Inr (m ! 1 # wcs))
      else Inl IndexOutOfRange)"

definition ExtractWildcards :: "string \<Rightarrow> panic + string list" where
  "ExtractWildcards path = wcs_loop (FindAllStringSubmatch WildcardRegex path)"

text \<open>\<open>IsDir\<close>: \<open>WildcardRegex.MatchString(f.RequestPath)\<close>.\<close>

definition IsDir :: "FileServerExpr \<Rightarrow> bool" where
  "IsDir f = MatchString WildcardRegex (RequestPath f)"

subsection \<open>Markers, in the words of the specification\<close>

text \<open>
  A marker is \<open>/{name}\<close> or \<open>/{*name}\<close>, where the name is a non-empty string of letters,
  digits and underscores. \<open>marker_name s\<close> is the name of the marker that \<open>s\<close> begins
  with, if it begins with one; \<open>markers s\<close> are the names of the markers of \<open>s\<close>, one for
  each position where a marker begins, from left to right.
\<close>

definition name_char :: "char \<Rightarrow> bool" where
  "name_char c = in_class name_ranges c"

definition marker :: "string \<Rightarrow> string \<Rightarrow> bool" where
  "marker name m \<longleftrightarrow>
     name \<noteq> [] \<and> list_all name_char name \<and>
     (m = ''/{'' @ name @ ''}'' \<or> m = ''/{*'' @ name @ ''}'')"

definition strip_star :: "string \<Rightarrow> string" where
  "strip_star s = (case s of c # t \<Rightarrow> if c = CHR ''*'' then t else s | [] \<Rightarrow> s)"

definition marker_name :: "string \<Rightarrow> string option" where
  "marker_name s =
     (case s of
        c1 # c2 # s1 \<Rightarrow>
          if c1 = CHR ''/'' \<and> c2 = CHR ''{'' then
            (let s2 = strip_star s1; name = takeWhile name_char s2; rest = dropWhile name_char s2
             in if name \<noteq> [] \<and> rest \<noteq> [] \<and> hd rest = CHR ''}'' then Some name else None)
          else None
      | _ \<Rightarrow> None)"

fun markers :: "string \<Rightarrow> string list" where
  "markers [] = []"
| "markers (c # s) =
     (case marker_name (c # s) of Some name \<Rightarrow> [name] | None \<Rightarrow> []) @ markers s"

subsection \<open>What the expression matches\<close>

text \<open>The ways in which \<open>[...]+\<close> matches: the longest run of the class first.\<close>

fun runs :: "(char \<Rightarrow> bool) \<Rightarrow> string \<Rightarrow> captures \<Rightarrow> (string \<times> captures) list" where
  "runs P [] caps = []"
| "runs P (c # t) caps = (if P c then runs P t caps @ [(t, caps)] else [])"

lemma name_char_special [simp]:
  "\<not> name_char CHR ''}''" "\<not> name_char CHR ''*''" "\<not> name_char CHR ''/''" "\<not> name_char CHR ''{''"
  by (simp_all add: name_char_def in_class_def name_ranges_def)

lemma match_Plus_CharClass:
  "match_here (Plus (CharClass ranges)) s caps = runs (in_class ranges) s caps"
proof (induction s)
  case Nil
  show ?case by (simp add: match_here.simps(5) [of _ "[]"] match_here.simps(2))
next
  case (Cons c t)
  show ?case
    by (simp add: match_here.simps(5) [of _ "c # t"] match_here.simps(2) Cons.IH)
qed

lemma runs_then_Literal:
  assumes "\<not> P e"
  shows "concat (map (\<lambda>tc. match_here (Literal e) (fst tc) (f tc)) (runs P s caps)) =
     (if takeWhile P s \<noteq> [] \<and> dropWhile P s \<noteq> [] \<and> hd (dropWhile P s) = e
      then [(tl (dropWhile P s), f (dropWhile P s, caps))] else [])"
proof (induction s)
  case Nil
  show ?case by simp
next
  case (Cons c t)
  show ?case
  proof (cases "P c")
    case False
    then show ?thesis by simp
  next
    case True
    show ?thesis
    proof (cases t)
      case Nil
      with True show ?thesis by (simp add: match_here.simps(1))
    next
      case (Cons d u)
      show ?thesis
      proof (cases "P d")
        case Pd: True
        with assms have "d \<noteq> e" by auto
        with True Pd Cons.IH show ?thesis
          by (simp add: Cons match_here.simps(1))
      next
        case False
        with True Cons.IH assms show ?thesis
          by (auto simp: Cons match_here.simps(1))
      qed
    qed
  qed
qed

lemma take_takeWhile_length:
  "take (length s - length (dropWhile P s)) s = takeWhile P s"
proof -
  have "length s = length (takeWhile P s) + length (dropWhile P s)"
    by (metis length_append takeWhile_dropWhile_id)
  then have "take (length s - length (dropWhile P s)) s = take (length (takeWhile P s)) s"
    by simp
  also have "\<dots> = takeWhile P s" by (rule takeWhile_eq_take [symmetric])
  finally show ?thesis .
qed

definition after_name :: "string \<Rightarrow> string" where
  "after_name s = tl (dropWhile name_char s)"

lemma match_name:
  "match_here (Concat (Capture 1 (Plus (CharClass name_ranges))) (Literal CHR ''}'')) s caps =
     (if takeWhile name_char s \<noteq> [] \<and> dropWhile name_char s \<noteq> [] \<and>
         hd (dropWhile name_char s) = CHR ''}''
      then [(after_name s, caps(1 \<mapsto> takeWhile name_char s))] else [])"
proof -
  have n: "name_char = in_class name_ranges" by (rule ext) (simp add: name_char_def)
  have "\<not> in_class name_ranges CHR ''}''" using name_char_special(1) by (simp add: name_char_def)
  from runs_then_Literal [of "in_class name_ranges" "CHR ''}''"
      "\<lambda>tc. (snd tc)(1 \<mapsto> take (length s - length (fst tc)) s)" s caps, OF this]
  show ?thesis
    by (simp add: match_here.simps(3) match_here.simps(6) match_Plus_CharClass map_map comp_def
        n take_takeWhile_length after_name_def)
qed

definition after_marker :: "string \<Rightarrow> string" where
  "after_marker s = after_name (strip_star (drop 2 s))"

lemma match_star_name:
  "match_here (Concat (Quest (Literal CHR ''*''))
       (Concat (Capture 1 (Plus (CharClass name_ranges))) (Literal CHR ''}''))) s caps =
     match_here (Concat (Capture 1 (Plus (CharClass name_ranges))) (Literal CHR ''}''))
       (strip_star s) caps"
proof (cases s)
  case Nil
  then show ?thesis
    by (simp add: match_here.simps(3) [of "Quest _"] match_here.simps(4) match_here.simps(1)
        strip_star_def)
next
  case (Cons c t)
  show ?thesis
  proof (cases "c = CHR ''*''")
    case True
    have "match_here (Concat (Capture 1 (Plus (CharClass name_ranges))) (Literal CHR ''}''))
        (CHR ''*'' # t) caps = []"
      unfolding match_name by simp
    with True Cons show ?thesis
      by (simp add: match_here.simps(3) [of "Quest _"] match_here.simps(4) match_here.simps(1)
          strip_star_def)
  next
    case False
    with Cons show ?thesis
      by (simp add: match_here.simps(3) [of "Quest _"] match_here.simps(4) match_here.simps(1)
          strip_star_def)
  qed
qed

lemma match_WildcardRegex:
  "match_here WildcardRegex s caps =
     (case marker_name s of
        None \<Rightarrow> []
      | Some name \<Rightarrow> [(after_marker s, caps(1 \<mapsto> name))])"
proof -
  let ?tail = "Concat (Quest (Literal CHR ''*''))
       (Concat (Capture 1 (Plus (CharClass name_ranges))) (Literal CHR ''}''))"
  have w: "match_here WildcardRegex s caps =
      (case s of
         c1 # c2 # s1 \<Rightarrow>
           if c1 = CHR ''/'' \<and> c2 = CHR ''{'' then match_here ?tail s1 caps else []
       | _ \<Rightarrow> [])"
    unfolding WildcardRegex_def
    by (simp add: match_here.simps(3) [of "Literal _"] match_here.simps(1) split: list.splits)
  show ?thesis
    unfolding w match_star_name match_name marker_name_def after_marker_def
    by (simp add: Let_def split: list.splits)
qed

lemma marker_name_not_slash: "c \<noteq> CHR ''/'' \<Longrightarrow> marker_name (c # s) = None"
  by (simp add: marker_name_def split: list.splits)

lemma markers_skip: "CHR ''/'' \<notin> set u \<Longrightarrow> markers (u @ v) = markers v"
  by (induction u) (auto simp: marker_name_not_slash)

lemma name_char_takeWhile: "list_all name_char (takeWhile name_char s)"
  by (induction s) simp_all

lemma marker_name_SomeD:
  assumes "marker_name s = Some name"
  shows "\<exists>m. marker name m \<and> s = m @ after_marker s"
proof -
  from assms obtain s1 where s: "s = CHR ''/'' # CHR ''{'' # s1"
    by (auto simp: marker_name_def split: list.splits if_splits)
  let ?s2 = "strip_star s1"
  from assms s have name: "name = takeWhile name_char ?s2" and ne: "name \<noteq> []"
    and r: "dropWhile name_char ?s2 \<noteq> []" and h: "hd (dropWhile name_char ?s2) = CHR ''}''"
    by (auto simp: marker_name_def Let_def split: if_splits)
  have a: "after_marker s = tl (dropWhile name_char ?s2)"
    by (simp add: after_marker_def after_name_def s)
  from r h have d: "dropWhile name_char ?s2 = CHR ''}'' # after_marker s"
    unfolding a by (cases "dropWhile name_char ?s2") simp_all
  have s2: "?s2 = name @ CHR ''}'' # after_marker s"
    using takeWhile_dropWhile_id [of name_char ?s2] unfolding name d by simp
  have la: "list_all name_char name" unfolding name by (rule name_char_takeWhile)
  show ?thesis
  proof (cases "\<exists>t. s1 = CHR ''*'' # t")
    case True
    then obtain t where t: "s1 = CHR ''*'' # t" by blast
    then have "?s2 = t" by (simp add: strip_star_def)
    with s2 t s have "s = (''/{*'' @ name @ ''}'') @ after_marker s" by simp
    moreover have "marker name (''/{*'' @ name @ ''}'')" using ne la by (simp add: marker_def)
    ultimately show ?thesis by blast
  next
    case False
    then have "?s2 = s1" by (auto simp: strip_star_def split: list.splits)
    with s2 s have "s = (''/{'' @ name @ ''}'') @ after_marker s" by simp
    moreover have "marker name (''/{'' @ name @ ''}'')" using ne la by (simp add: marker_def)
    ultimately show ?thesis by blast
  qed
qed

lemma takeWhile_name_append:
  assumes "list_all name_char name"
  shows "takeWhile name_char (name @ CHR ''}'' # rest) = name"
    and "dropWhile name_char (name @ CHR ''}'' # rest) = CHR ''}'' # rest"
  using assms by (induction name) simp_all

lemma marker_name_SomeI:
  assumes "marker name m"
  shows "marker_name (m @ rest) = Some name"
proof -
  from assms have ne: "name \<noteq> []" and la: "list_all name_char name"
    and m: "m = ''/{'' @ name @ ''}'' \<or> m = ''/{*'' @ name @ ''}''"
    by (simp_all add: marker_def)
  from ne la have "hd name \<noteq> CHR ''*''" by (cases name) auto
  then have ns: "strip_star (name @ CHR ''}'' # rest) = name @ CHR ''}'' # rest"
    using ne by (cases name) (simp_all add: strip_star_def)
  from m show ?thesis
  proof
    assume "m = ''/{'' @ name @ ''}''"
    then show ?thesis
      using ne by (simp add: marker_name_def ns takeWhile_name_append [OF la] Let_def)
  next
    assume "m = ''/{*'' @ name @ ''}''"
    then show ?thesis
      using ne by (simp add: marker_name_def strip_star_def takeWhile_name_append [OF la] Let_def)
  qed
qed

lemma marker_name_iff:
  "marker_name s = Some name \<longleftrightarrow> (\<exists>m rest. s = m @ rest \<and> marker name m)"
  using marker_name_SomeD [of s name] marker_name_SomeI [of name] by metis

lemma marker_no_inner_slash:
  assumes "marker name m"
  shows "\<exists>u. m = CHR ''/'' # u \<and> CHR ''/'' \<notin> set u"
proof -
  from assms have "list_all name_char name" by (simp add: marker_def)
  then have "CHR ''/'' \<notin> set name" by (induction name) auto
  with assms show ?thesis by (auto simp: marker_def)
qed

lemma markers_at_marker:
  assumes "marker_name s = Some name"
  shows "markers s = name # markers (after_marker s)" and "length (after_marker s) < length s"
proof -
  from marker_name_SomeD [OF assms] obtain m where m: "marker name m"
    and s: "s = m @ after_marker s" by blast
  from marker_no_inner_slash [OF m] obtain u where u: "m = CHR ''/'' # u"
    and n: "CHR ''/'' \<notin> set u" by blast
  have s': "s = CHR ''/'' # (u @ after_marker s)" using s u by simp
  have "markers s = (case marker_name s of Some name \<Rightarrow> [name] | None \<Rightarrow> [])
      @ markers (u @ after_marker s)"
    by (subst s', subst markers.simps) (simp add: s' [symmetric])
  then show "markers s = name # markers (after_marker s)"
    by (simp add: assms markers_skip [OF n])
  show "length (after_marker s) < length s"
    by (subst (2) s') simp
qed

lemma find_from_WildcardRegex:
  "find_from WildcardRegex s =
     (case marker_name s of
        Some name \<Rightarrow> Some (0, after_marker s, [1 \<mapsto> name])
      | None \<Rightarrow>
          (case s of
             [] \<Rightarrow> None
           | _ # s' \<Rightarrow> map_option (\<lambda>(k, t, caps). (Suc k, t, caps)) (find_from WildcardRegex s')))"
  by (subst find_from.simps) (simp add: match_WildcardRegex split: option.splits)

lemma find_from_None_markers: "find_from WildcardRegex s = None \<Longrightarrow> markers s = []"
proof (induction s)
  case Nil
  show ?case by simp
next
  case (Cons c s)
  from Cons.prems have "marker_name (c # s) = None" and "find_from WildcardRegex s = None"
    by (simp_all add: find_from_WildcardRegex [of "c # s"] split: option.splits)
  with Cons.IH show ?case by simp
qed

lemma find_from_Some_markers:
  "find_from WildcardRegex s = Some (k, t, caps) \<Longrightarrow>
   \<exists>name. caps 1 = Some name \<and> markers s = name # markers t \<and> length t < length s"
proof (induction s arbitrary: k)
  case Nil
  then show ?case
    by (simp add: find_from_WildcardRegex [of "[]"] marker_name_def)
next
  case (Cons c s)
  show ?case
  proof (cases "marker_name (c # s)")
    case (Some name)
    with Cons.prems have "t = after_marker (c # s)" and "caps = [1 \<mapsto> name]"
      by (simp_all add: find_from_WildcardRegex [of "c # s"])
    with markers_at_marker [OF Some] show ?thesis by simp
  next
    case None
    with Cons.prems obtain k' where "find_from WildcardRegex s = Some (k', t, caps)"
      by (auto simp: find_from_WildcardRegex [of "c # s"])
    from Cons.IH [OF this] None show ?thesis by auto
  qed
qed

definition cap1 :: "nat \<times> string \<times> string \<times> captures \<Rightarrow> string" where
  "cap1 = (\<lambda>(k, s, t, caps). case caps 1 of None \<Rightarrow> [] | Some g \<Rightarrow> g)"

lemma allMatches_WildcardRegex:
  "map cap1 (allMatches WildcardRegex adjacent s) = markers s"
proof (induction s arbitrary: adjacent rule: length_induct)
  case (1 s)
  show ?case
  proof (cases "find_from WildcardRegex s")
    case None
    then show ?thesis
      by (subst allMatches.simps) (simp add: find_from_None_markers)
  next
    case (Some m)
    obtain k t caps where m: "m = (k, t, caps)" by (cases m)
    from find_from_Some_markers [OF Some [unfolded m]] obtain name
      where c: "caps 1 = Some name" and ms: "markers s = name # markers t"
        and l: "length t < length s" by blast
    from 1 l have "map cap1 (allMatches WildcardRegex True t) = markers t" by blast
    with Some m c ms l show ?thesis
      by (subst allMatches.simps) (simp add: cap1_def)
  qed
qed

lemma NumSubexp_WildcardRegex: "NumSubexp WildcardRegex = 1"
  by (simp add: WildcardRegex_def)

lemma wcs_loop_submatches:
  "wcs_loop (map (submatches WildcardRegex) ms) = Inr (map cap1 ms)"
  by (induction ms) (auto simp: submatches_def NumSubexp_WildcardRegex cap1_def split: prod.splits)

lemma ExtractWildcards_markers: "ExtractWildcards path = Inr (markers path)"
  by (simp add: ExtractWildcards_def FindAllStringSubmatch_def wcs_loop_submatches
      allMatches_WildcardRegex)

lemma MatchString_markers: "MatchString WildcardRegex s \<longleftrightarrow> markers s \<noteq> []"
proof (cases "find_from WildcardRegex s")
  case None
  then show ?thesis by (simp add: MatchString_def find_from_None_markers)
next
  case (Some m)
  obtain k t caps where m: "m = (k, t, caps)" by (cases m)
  from find_from_Some_markers [OF Some [unfolded m]] Some show ?thesis
    by (auto simp: MatchString_def)
qed

lemma markers_nonempty_iff:
  "markers s \<noteq> [] \<longleftrightarrow> (\<exists>pre m rest name. s = pre @ m @ rest \<and> marker name m)"
proof
  assume "markers s \<noteq> []"
  then show "\<exists>pre m rest name. s = pre @ m @ rest \<and> marker name m"
  proof (induction s)
    case Nil
    then show ?case by simp
  next
    case (Cons c s)
    show ?case
    proof (cases "marker_name (c # s)")
      case (Some name)
      from marker_name_SomeD [OF this] obtain m where "marker name m"
        and "c # s = [] @ m @ after_marker (c # s)" by auto
      then show ?thesis by blast
    next
      case None
      with Cons.prems have "markers s \<noteq> []" by simp
      from Cons.IH [OF this] obtain pre m rest name
        where "s = pre @ m @ rest" and "marker name m" by blast
      then have "c # s = (c # pre) @ m @ rest" by simp
      with \<open>marker name m\<close> show ?thesis by blast
    qed
  qed
next
  assume "\<exists>pre m rest name. s = pre @ m @ rest \<and> marker name m"
  then obtain pre m rest name where s: "s = pre @ m @ rest" and m: "marker name m" by blast
  have "markers (pre @ m @ rest) \<noteq> []"
  proof (induction pre)
    case Nil
    from markers_at_marker(1) [OF marker_name_SomeI [OF m, of rest]] show ?case by simp
  next
    case (Cons c pre)
    then show ?case by simp
  qed
  with s show "markers s \<noteq> []" by simp
qed

lemma ExtractWildcards_examples:
  "ExtractWildcards ''/users/{id}/files/{*path}'' = Inr [''id'', ''path'']"
  "ExtractWildcards ''/static'' = Inr []"
  "ExtractWildcards ''/{x}/{x}'' = Inr [''x'', ''x'']"
  by code_simp+

lemma MatchString_examples:
  "MatchString WildcardRegex ''/api/v1/assets/{*filepath}''"
  "\<not> MatchString WildcardRegex ''/api/v1/logo.png''"
  by code_simp+

text \<open>
  Claim C7. \<open>ExtractWildcards\<close> never fails and returns the names of the markers of the
  path: one name for each position at which a marker \<open>/{name}\<close> or \<open>/{*name}\<close> begins,
  from left to right, a repeated name as often as it occurs. The result is empty exactly
  when the path contains no marker.
\<close>

theorem ExtractWildcards_names_of_markers:
  "ExtractWildcards path = Inr (markers path) \<and>
   (marker_name s = Some name \<longleftrightarrow> (\<exists>m rest. s = m @ rest \<and> marker name m)) \<and>
   (ExtractWildcards path = Inr [] \<longleftrightarrow>
      \<not> (\<exists>pre m rest name. path = pre @ m @ rest \<and> marker name m)) \<and>
   ExtractWildcards ''/users/{id}/files/{*path}'' = Inr [''id'', ''path''] \<and>
   ExtractWildcards ''/static'' = Inr [] \<and>
   ExtractWildcards ''/{x}/{x}'' = Inr [''x'', ''x'']"
proof -
  have "ExtractWildcards path = Inr [] \<longleftrightarrow>
      \<not> (\<exists>pre m rest name. path = pre @ m @ rest \<and> marker name m)"
    unfolding ExtractWildcards_markers using markers_nonempty_iff [of path] by blast
  then show ?thesis
    using ExtractWildcards_markers [of path] marker_name_iff [of s name] ExtractWildcards_examples
    by blast
qed

text \<open>
  Claim C8. \<open>IsDir\<close> holds exactly when the request path contains a marker, which is
  exactly when \<open>ExtractWildcards\<close> of the request path is not empty.
\<close>

theorem IsDir_iff_wildcard:
  "(IsDir f \<longleftrightarrow> (\<exists>pre m rest name. RequestPath f = pre @ m @ rest \<and> marker name m)) \<and>
   (IsDir f \<longleftrightarrow> (\<exists>name names. ExtractWildcards (RequestPath f) = Inr (name # names))) \<and>
   IsDir (f\<lparr>RequestPath := ''/api/v1/assets/{*filepath}''\<rparr>) \<and>
   \<not> IsDir (f\<lparr>RequestPath := ''/api/v1/logo.png''\<rparr>)"
proof -
  have "IsDir f \<longleftrightarrow> markers (RequestPath f) \<noteq> []"
    by (simp add: IsDir_def MatchString_markers)
  moreover have "markers (RequestPath f) \<noteq> [] \<longleftrightarrow>
      (\<exists>name names. ExtractWildcards (RequestPath f) = Inr (name # names))"
    by (cases "markers (RequestPath f)") (simp_all add: ExtractWildcards_markers)
  ultimately show ?thesis
    using markers_nonempty_iff [of "RequestPath f"]
    by (simp add: IsDir_def MatchString_examples)
qed

section \<open>Request path of a file server: \<open>Finalize\<close> (file_server.go)\<close>

subsection \<open>Go's \<open>path.Clean\<close> and \<open>path.Join\<close>\<close>

text \<open>
  \<open>path.Clean\<close> writes the cleaned path into a buffer \<open>out\<close> (the bytes written so
  far, \<open>out.w\<close> of them) while it reads the path; \<open>dotdot\<close> is the length of the
  prefix that a \<open>..\<close> element must not remove. Backing up over the last element:
  \<^verbatim>\<open>out.w--
  for out.w > dotdot && out.index(out.w) != '/' { out.w-- }\<close>
\<close>

function backtrack :: "string \<Rightarrow> nat \<Rightarrow> nat \<Rightarrow> nat" where
  "backtrack out w dotdot =
     (if w > dotdot \<and> out ! w \<noteq> CHR ''/'' then backtrack out (w - 1) dotdot else w)"
  by pat_completeness auto
termination
  by (relation "measure (\<lambda>(out, w, dotdot). w)") auto

declare backtrack.simps [simp del]

text \<open>
  The loop \<open>for r < n\<close> of \<open>Clean\<close>; \<open>rest\<close> is \<open>path[r:]\<close>.
  \<^verbatim>\<open>switch {
  case path[r] == '/': r++
  case path[r] == '.' && (r+1 == n || path[r+1] == '/'): r++
  case path[r] == '.' && path[r+1] == '.' && (r+2 == n || path[r+2] == '/'):
    r += 2
    switch {
    case out.w > dotdot: (back up over the last element)
    case !rooted:
      if out.w > 0 { out.append('/') }
      out.append('.'); out.append('.'); dotdot = out.w }
  default:
    if rooted && out.w != 1 || !rooted && out.w != 0 { out.append('/') }
    for ; r < n && path[r] != '/'; r++ { out.append(path[r]) } }\<close>
\<close>

function clean_loop :: "bool \<Rightarrow> string \<Rightarrow> string \<Rightarrow> nat \<Rightarrow> string" where
  "clean_loop rooted rest out dotdot =
     (case rest of
        [] \<Rightarrow> out
      | c # cs \<Rightarrow>
          if c = CHR ''/'' then clean_loop rooted cs out dotdot
          else if c = CHR ''.'' \<and> (cs = [] \<or> hd cs = CHR ''/'') then
            clean_loop rooted cs out dotdot
          else if c = CHR ''.'' \<and> hd cs = CHR ''.'' \<and> (tl cs = [] \<or> hd (tl cs) = CHR ''/'') then
            (if length out > dotdot then
               clean_loop rooted (tl cs) (take (backtrack out (length out - 1) dotdot) out) dotdot
             else if \<not> rooted then
               (let out = (if length out > 0 then out @ ''/'' else out) @ ''..''
                in clean_loop rooted (tl cs) out (length out))
             else clean_loop rooted (tl cs) out dotdot)
          else
            (let out = (if rooted \<and> length out \<noteq> 1 \<or> \<not> rooted \<and> length out \<noteq> 0
                        then out @ ''/'' else out)
             in clean_loop rooted (dropWhile (\<lambda>c. c \<noteq> CHR ''/'') rest)
                  (out @ takeWhile (\<lambda>c. c \<noteq> CHR ''/'') rest) dotdot))"
  by pat_completeness auto
termination
proof (relation "measure (\<lambda>(rooted, rest, out, dotdot). length rest)", goal_cases)
  case 1
  show ?case by simp
next
  case (2 rooted rest out dotdot c cs)
  then show ?case by simp
next
  case (3 rooted rest out dotdot c cs)
  then show ?case by simp
next
  case (4 rooted rest out dotdot c cs)
  then show ?case by simp
next
  case (5 rooted rest out dotdot c cs)
  then show ?case by simp
next
  case (6 rooted rest out dotdot c cs)
  then show ?case by simp
next
  case (7 rooted rest out dotdot c cs)
  have "length (dropWhile (\<lambda>c. c \<noteq> CHR ''/'') cs) \<le> length cs" by (rule length_dropWhile_le)
  with 7 show ?case by simp
qed

declare clean_loop.simps [simp del]

text \<open>
  \<open>Clean\<close>: the empty path is \<open>"."\<close>; a rooted path starts the buffer with the slash and
  \<open>r, dotdot = 1, 1\<close>; an empty result is \<open>"."\<close>.
\<close>

definition Clean :: "string \<Rightarrow> string" where
  "Clean path =
     (if path = '''' then ''.''
      else
        (let rooted = (hd path = CHR ''/'');
             out = (if rooted then clean_loop rooted (tl path) ''/'' 1
                    else clean_loop rooted path '''' 0)
         in if length out = 0 then ''.'' else out))"

text \<open>
  \<open>strings.Join(elems, sep)\<close>, and \<open>path.Join\<close>: the elements from the first non-empty
  one on are joined with slashes and cleaned; when all are empty the result is empty.
  \<^verbatim>\<open>for i, e := range elem {
    if e != "" { return Clean(strings.Join(elem[i:], "/")) } }
  return ""\<close>
\<close>

fun strings_Join :: "string list \<Rightarrow> string \<Rightarrow> string" where
  "strings_Join [] sep = ''''"
| "strings_Join [a] sep = a"
| "strings_Join (a # elems) sep = a @ sep @ strings_Join elems sep"

fun Join :: "string list \<Rightarrow> string" where
  "Join [] = ''''"
| "Join (e # elem) = (if e \<noteq> '''' then Clean (strings_Join (e # elem) ''/'') else Join elem)"

subsection \<open>\<open>Finalize\<close>\<close>

text \<open>\<open>strings.HasPrefix(s, prefix)\<close>.\<close>

definition HasPrefix :: "string \<Rightarrow> string \<Rightarrow> bool" where
  "HasPrefix s prefix \<longleftrightarrow> length s \<ge> length prefix \<and> take (length prefix) s = prefix"

text \<open>
  \<open>Finalize\<close> reads the global \<open>Root\<close> and the owning service through the pointer
  \<open>f.Service\<close>; \<open>services\<close> is the store of services, which gives the service at an
  address. A nil \<open>f.Service\<close> panics.
  \<^verbatim>\<open>f.RequestPath = path.Join(Root.Path, f.Service.Path, f.RequestPath)
  if !strings.HasPrefix(f.RequestPath, "/") { f.RequestPath = "/" + f.RequestPath }\<close>
\<close>

definition Finalize ::
  "'e RootExpr \<Rightarrow> (addr \<Rightarrow> 'e ServiceExpr) \<Rightarrow> FileServerExpr \<Rightarrow> panic + FileServerExpr" where
  "Finalize Root services f =
     (case Service f of
        None \<Rightarrow> Inl NilDereference
      | Some svc \<Rightarrow>
          (let f = f\<lparr>RequestPath :=
                      Join [RootExpr.Path Root, ServiceExpr.Path (services svc), RequestPath f]\<rparr>
           in if \<not> HasPrefix (RequestPath f) ''/'' then Inr (f\<lparr>RequestPath := ''/'' @ RequestPath f\<rparr>)
              else Inr f))"

subsection \<open>No duplicated separators\<close>

text \<open>
  \<open>nodd s\<close>: no two adjacent slashes in \<open>s\<close>. \<open>clean_inv\<close> is what holds of the buffer
  throughout the loop of \<open>Clean\<close>: no two adjacent slashes; a rooted buffer begins with
  the slash; the protected prefix does not end with a slash; and the buffer ends with a
  slash only when it is the root alone.
\<close>

fun nodd :: "string \<Rightarrow> bool" where
  "nodd [] \<longleftrightarrow> True"
| "nodd [a] \<longleftrightarrow> True"
| "nodd (a # b # s) \<longleftrightarrow> \<not> (a = CHR ''/'' \<and> b = CHR ''/'') \<and> nodd (b # s)"

definition ends_slash :: "string \<Rightarrow> bool" where
  "ends_slash s \<longleftrightarrow> s \<noteq> [] \<and> last s = CHR ''/''"

definition clean_inv :: "bool \<Rightarrow> string \<Rightarrow> nat \<Rightarrow> bool" where
  "clean_inv rooted out dotdot \<longleftrightarrow>
     nodd out \<and>
     (if rooted then out \<noteq> [] \<and> hd out = CHR ''/'' \<and> dotdot = 1
      else dotdot \<le> length out \<and> \<not> ends_slash (take dotdot out)) \<and>
     (\<not> ends_slash out \<or> rooted \<and> length out = 1)"

lemma nodd_append:
  "nodd (xs @ ys) \<longleftrightarrow>
     nodd xs \<and> nodd ys \<and> \<not> (ends_slash xs \<and> ys \<noteq> [] \<and> hd ys = CHR ''/'')"
proof (induction xs rule: nodd.induct)
  case 1
  show ?case by (simp add: ends_slash_def)
next
  case (2 a)
  show ?case by (cases ys) (auto simp: ends_slash_def)
next
  case (3 a b s)
  then show ?case by (simp add: ends_slash_def)
qed

lemma nodd_take: "nodd xs \<Longrightarrow> nodd (take n xs)"
  using nodd_append [of "take n xs" "drop n xs"] by simp

lemma nodd_no_slash: "CHR ''/'' \<notin> set xs \<Longrightarrow> nodd xs"
  by (induction xs rule: nodd.induct) auto

lemma nodd_nth:
  "nodd xs \<Longrightarrow> Suc i < length xs \<Longrightarrow> xs ! i = CHR ''/'' \<Longrightarrow> xs ! Suc i \<noteq> CHR ''/''"
proof (induction xs arbitrary: i rule: nodd.induct)
  case (3 a b s)
  then show ?case by (cases i) auto
qed simp_all

lemma nodd_iff: "nodd p \<longleftrightarrow> \<not> (\<exists>u v. p = u @ ''//'' @ v)"
proof
  assume n: "nodd p"
  show "\<not> (\<exists>u v. p = u @ ''//'' @ v)"
  proof
    assume "\<exists>u v. p = u @ ''//'' @ v"
    then obtain u v where "p = u @ ''//'' @ v" by blast
    with n have "nodd (u @ ''//'' @ v)" by simp
    then show False by (simp add: nodd_append)
  qed
next
  assume "\<not> (\<exists>u v. p = u @ ''//'' @ v)"
  then show "nodd p"
  proof (induction p rule: nodd.induct)
    case (3 a b s)
    have "\<not> (a = CHR ''/'' \<and> b = CHR ''/'')"
    proof
      assume "a = CHR ''/'' \<and> b = CHR ''/''"
      then have "a # b # s = [] @ ''//'' @ s" by simp
      with "3.prems" show False by blast
    qed
    moreover have "\<not> (\<exists>u v. b # s = u @ ''//'' @ v)"
    proof
      assume "\<exists>u v. b # s = u @ ''//'' @ v"
      then obtain u v where "b # s = u @ ''//'' @ v" by blast
      then have "a # b # s = (a # u) @ ''//'' @ v" by simp
      with "3.prems" show False by blast
    qed
    ultimately show ?case using "3.IH" by simp
  qed simp_all
qed

lemma backtrack_bounds:
  "dotdot \<le> w \<Longrightarrow>
   dotdot \<le> backtrack out w dotdot \<and> backtrack out w dotdot \<le> w \<and>
   (backtrack out w dotdot = dotdot \<or> out ! backtrack out w dotdot = CHR ''/'')"
proof (induction out w dotdot rule: backtrack.induct)
  case (1 out w dotdot)
  show ?case
  proof (cases "w > dotdot \<and> out ! w \<noteq> CHR ''/''")
    case True
    then have "dotdot \<le> w - 1" by linarith
    with True "1.IH" have "dotdot \<le> backtrack out (w - 1) dotdot \<and> backtrack out (w - 1) dotdot \<le> w - 1 \<and>
      (backtrack out (w - 1) dotdot = dotdot \<or> out ! backtrack out (w - 1) dotdot = CHR ''/'')"
      by simp
    with True show ?thesis by (subst (1 2 3 4) backtrack.simps) auto
  next
    case False
    with "1.prems" show ?thesis by (subst (1 2 3 4) backtrack.simps) auto
  qed
qed

lemma last_take_nth:
  assumes "0 < w" and "w \<le> length xs"
  shows "last (take w xs) = xs ! (w - 1)"
proof -
  from assms have "take w xs \<noteq> []" and "length (take w xs) = w" by auto
  then have "last (take w xs) = take w xs ! (w - 1)" by (simp add: last_conv_nth)
  also have "\<dots> = xs ! (w - 1)" using assms by simp
  finally show ?thesis .
qed

lemma inv_backtrack:
  assumes inv: "clean_inv rooted out dotdot" and l: "length out > dotdot"
  shows "clean_inv rooted (take (backtrack out (length out - 1) dotdot) out) dotdot"
proof -
  let ?w = "backtrack out (length out - 1) dotdot"
  from l have "dotdot \<le> length out - 1" by linarith
  from backtrack_bounds [OF this, of out]
  have lo: "dotdot \<le> ?w" and hi: "?w \<le> length out - 1"
    and at: "?w = dotdot \<or> out ! ?w = CHR ''/''" by auto
  from hi l have wl: "?w < length out" by linarith
  from inv have n: "nodd out" by (simp add: clean_inv_def)
  have 1: "nodd (take ?w out)" using n by (rule nodd_take)
  have 3: "\<not> ends_slash (take ?w out) \<or> rooted \<and> length (take ?w out) = 1"
  proof (cases "?w = dotdot")
    case True
    show ?thesis
    proof (cases rooted)
      case True
      with inv \<open>?w = dotdot\<close> wl show ?thesis by (simp add: clean_inv_def)
    next
      case False
      with inv \<open>?w = dotdot\<close> show ?thesis by (simp add: clean_inv_def)
    qed
  next
    case False
    with at lo have s: "out ! ?w = CHR ''/''" and p: "0 < ?w" by auto
    have "\<not> ends_slash (take ?w out)"
    proof
      assume "ends_slash (take ?w out)"
      then have "last (take ?w out) = CHR ''/''" by (simp add: ends_slash_def)
      with p wl have "out ! (?w - 1) = CHR ''/''" by (simp add: last_take_nth)
      from nodd_nth [OF n _ this] p wl s show False by simp
    qed
    then show ?thesis by simp
  qed
  have 2: "if rooted then take ?w out \<noteq> [] \<and> hd (take ?w out) = CHR ''/'' \<and> dotdot = 1
      else dotdot \<le> length (take ?w out) \<and> \<not> ends_slash (take dotdot (take ?w out))"
  proof (cases rooted)
    case True
    with inv have "out \<noteq> []" "hd out = CHR ''/''" "dotdot = 1" by (simp_all add: clean_inv_def)
    with lo wl True show ?thesis by (cases out) auto
  next
    case False
    with inv have "\<not> ends_slash (take dotdot out)" by (simp add: clean_inv_def)
    with lo wl False show ?thesis by (simp add: min_def)
  qed
  from 1 2 3 show ?thesis unfolding clean_inv_def by blast
qed

lemma inv_dotdot:
  assumes inv: "clean_inv False out dotdot"
  shows "clean_inv False ((if length out > 0 then out @ ''/'' else out) @ ''..'')
           (length ((if length out > 0 then out @ ''/'' else out) @ ''..''))"
proof -
  from inv have n: "nodd out" and e: "\<not> ends_slash out" by (simp_all add: clean_inv_def)
  show ?thesis
    using n e by (auto simp: clean_inv_def nodd_append ends_slash_def)
qed

lemma inv_elem:
  assumes inv: "clean_inv rooted out dotdot" and ne: "elem \<noteq> []" and ns: "CHR ''/'' \<notin> set elem"
  shows "clean_inv rooted
           ((if rooted \<and> length out \<noteq> 1 \<or> \<not> rooted \<and> length out \<noteq> 0 then out @ ''/'' else out)
              @ elem) dotdot"
proof -
  let ?out = "if rooted \<and> length out \<noteq> 1 \<or> \<not> rooted \<and> length out \<noteq> 0 then out @ ''/'' else out"
  from inv have n: "nodd out" and d: "\<not> ends_slash out \<or> rooted \<and> length out = 1"
    by (simp_all add: clean_inv_def)
  from ne ns have h: "hd elem \<noteq> CHR ''/''" and la: "last elem \<noteq> CHR ''/''"
    by (auto dest: hd_in_set last_in_set)
  have ne': "nodd elem" using ns by (rule nodd_no_slash)
  have 1: "nodd (?out @ elem)"
    using n d ne' h ne by (auto simp: nodd_append ends_slash_def)
  have 3: "\<not> ends_slash (?out @ elem)" using ne la by (simp add: ends_slash_def)
  have 2: "if rooted then ?out @ elem \<noteq> [] \<and> hd (?out @ elem) = CHR ''/'' \<and> dotdot = 1
      else dotdot \<le> length (?out @ elem) \<and> \<not> ends_slash (take dotdot (?out @ elem))"
  proof (cases rooted)
    case True
    with inv have "out \<noteq> []" "hd out = CHR ''/''" "dotdot = 1" by (simp_all add: clean_inv_def)
    with True show ?thesis by auto
  next
    case False
    with inv have "dotdot \<le> length out" "\<not> ends_slash (take dotdot out)"
      by (simp_all add: clean_inv_def)
    with False show ?thesis by auto
  qed
  from 1 2 3 show ?thesis unfolding clean_inv_def by blast
qed

lemma takeWhile_elem:
  assumes "c \<noteq> CHR ''/''"
  shows "takeWhile (\<lambda>c. c \<noteq> CHR ''/'') (c # cs) \<noteq> []"
    and "CHR ''/'' \<notin> set (takeWhile (\<lambda>c. c \<noteq> CHR ''/'') (c # cs))"
  using assms by (auto dest: set_takeWhileD)

lemma clean_loop_inv:
  "clean_inv rooted out dotdot \<Longrightarrow> \<exists>d. clean_inv rooted (clean_loop rooted rest out dotdot) d"
proof (induction rooted rest out dotdot rule: clean_loop.induct)
  case (1 rooted rest out dotdot)
  show ?case
  proof (cases rest)
    case Nil
    with "1.prems" show ?thesis by (subst clean_loop.simps) auto
  next
    case (Cons c cs)
    consider (slash) "c = CHR ''/''"
      | (dot) "c \<noteq> CHR ''/''" "c = CHR ''.'' \<and> (cs = [] \<or> hd cs = CHR ''/'')"
      | (dotdot) "c \<noteq> CHR ''/''" "\<not> (c = CHR ''.'' \<and> (cs = [] \<or> hd cs = CHR ''/''))"
          "c = CHR ''.'' \<and> hd cs = CHR ''.'' \<and> (tl cs = [] \<or> hd (tl cs) = CHR ''/'')"
      | (elem) "c \<noteq> CHR ''/''" "\<not> (c = CHR ''.'' \<and> (cs = [] \<or> hd cs = CHR ''/''))"
          "\<not> (c = CHR ''.'' \<and> hd cs = CHR ''.'' \<and> (tl cs = [] \<or> hd (tl cs) = CHR ''/''))"
      by blast
    then show ?thesis
    proof cases
      case slash
      from "1.IH"(1) [OF Cons slash "1.prems"] show ?thesis
        by (subst clean_loop.simps) (simp add: Cons slash)
    next
      case dot
      from "1.IH"(2) [OF Cons dot "1.prems"] show ?thesis
        by (subst clean_loop.simps) (simp add: Cons dot)
    next
      case dotdot
      then have c: "c = CHR ''.''" and cs: "cs \<noteq> []" "hd cs \<noteq> CHR ''/''" "hd cs = CHR ''.''"
        and t: "tl cs = [] \<or> hd (tl cs) = CHR ''/''" by auto
      have step: "clean_loop rooted rest out dotdot =
          (if length out > dotdot then
             clean_loop rooted (tl cs) (take (backtrack out (length out - 1) dotdot) out) dotdot
           else if \<not> rooted then
             clean_loop rooted (tl cs) ((if length out > 0 then out @ ''/'' else out) @ ''..'')
               (length ((if length out > 0 then out @ ''/'' else out) @ ''..''))
           else clean_loop rooted (tl cs) out dotdot)"
        using t by (subst clean_loop.simps) (simp add: Cons c cs Let_def)
      show ?thesis
      proof (cases "length out > dotdot")
        case True
        from "1.IH"(3) [OF Cons dotdot True inv_backtrack [OF "1.prems" True]] show ?thesis
          unfolding step using True by simp
      next
        case False
        show ?thesis
        proof (cases rooted)
          case True
          from "1.IH"(5) [OF Cons dotdot False _ "1.prems"] True show ?thesis
            unfolding step using False by simp
        next
          case nr: False
          with "1.prems" have "clean_inv False out dotdot" by simp
          from inv_dotdot [OF this] nr
          have "clean_inv rooted ((if length out > 0 then out @ ''/'' else out) @ ''..'')
             (length ((if length out > 0 then out @ ''/'' else out) @ ''..''))" by simp
          from "1.IH"(4) [OF Cons dotdot False nr refl this] show ?thesis
            unfolding step using False nr by simp
        qed
      qed
    next
      case elem
      let ?out = "if rooted \<and> length out \<noteq> 1 \<or> \<not> rooted \<and> length out \<noteq> 0 then out @ ''/'' else out"
      have step: "clean_loop rooted rest out dotdot =
          clean_loop rooted (dropWhile (\<lambda>c. c \<noteq> CHR ''/'') rest)
            (?out @ takeWhile (\<lambda>c. c \<noteq> CHR ''/'') rest) dotdot"
        using elem by (subst clean_loop.simps) (auto simp: Cons Let_def)
      have "clean_inv rooted (?out @ takeWhile (\<lambda>c. c \<noteq> CHR ''/'') rest) dotdot"
        unfolding Cons using "1.prems" takeWhile_elem [OF elem(1)] by (rule inv_elem)
      from "1.IH"(6) [OF Cons elem refl this] show ?thesis
        unfolding step .
    qed
  qed
qed

lemma Clean_nodd: "nodd (Clean path)"
proof (cases "path = []")
  case True
  then show ?thesis by (simp add: Clean_def)
next
  case False
  show ?thesis
  proof (cases "hd path = CHR ''/''")
    case True
    have "clean_inv True ''/'' 1" by (simp add: clean_inv_def ends_slash_def)
    from clean_loop_inv [OF this, of "tl path"] have "nodd (clean_loop True (tl path) ''/'' 1)"
      by (auto simp: clean_inv_def)
    with False True show ?thesis by (simp add: Clean_def Let_def)
  next
    case nr: False
    have "clean_inv False '''' 0" by (simp add: clean_inv_def ends_slash_def)
    from clean_loop_inv [OF this, of path] have "nodd (clean_loop False path '''' 0)"
      by (auto simp: clean_inv_def)
    with False nr show ?thesis by (simp add: Clean_def Let_def)
  qed
qed

lemma Join_nodd: "nodd (Join elem)"
  by (induction elem) (simp_all add: Clean_nodd)

subsection \<open>Paths without dot elements\<close>

text \<open>
  In the words of the specification, the join of path prefixes: \<open>pieces p\<close> are the
  strings between the slashes of \<open>p\<close>, \<open>segments p\<close> the non-empty ones. A path is
  \<open>plain\<close> when none of its segments is \<open>.\<close> or \<open>..\<close>. \<open>push\<close> is what the loop of
  \<open>Clean\<close> does with a segment of a plain path.
\<close>

fun pieces :: "string \<Rightarrow> string list" where
  "pieces [] = [[]]"
| "pieces (c # s) =
     (if c = CHR ''/'' then [] # pieces s
      else (case pieces s of p # ps \<Rightarrow> (c # p) # ps | [] \<Rightarrow> [[c]]))"

definition segments :: "string \<Rightarrow> string list" where
  "segments p = filter (\<lambda>seg. seg \<noteq> []) (pieces p)"

definition plain :: "string \<Rightarrow> bool" where
  "plain p \<longleftrightarrow> ''.'' \<notin> set (segments p) \<and> ''..'' \<notin> set (segments p)"

definition push :: "bool \<Rightarrow> string \<Rightarrow> string \<Rightarrow> string" where
  "push rooted out seg =
     (if rooted \<and> length out \<noteq> 1 \<or> \<not> rooted \<and> length out \<noteq> 0 then out @ ''/'' else out) @ seg"

lemma pieces_not_Nil [simp]: "pieces s \<noteq> []"
  by (induction s) (auto split: list.splits)

lemma pieces_append_slash: "pieces (u @ CHR ''/'' # v) = pieces u @ pieces v"
  by (induction u) (auto split: list.splits)

lemma segments_append_slash: "segments (u @ CHR ''/'' # v) = segments u @ segments v"
  by (simp add: segments_def pieces_append_slash)

lemma segments_Nil [simp]: "segments [] = []"
  by (simp add: segments_def)

lemma segments_slash [simp]: "segments (CHR ''/'' # s) = segments s"
  by (simp add: segments_def)

lemma pieces_elem:
  "c \<noteq> CHR ''/'' \<Longrightarrow>
   pieces (c # cs) =
     takeWhile (\<lambda>c. c \<noteq> CHR ''/'') (c # cs) #
     (case dropWhile (\<lambda>c. c \<noteq> CHR ''/'') (c # cs) of [] \<Rightarrow> [] | _ # t \<Rightarrow> pieces t)"
proof (induction cs arbitrary: c)
  case Nil
  then show ?case by simp
next
  case (Cons d cs)
  show ?case
  proof (cases "d = CHR ''/''")
    case True
    with Cons.prems show ?thesis by simp
  next
    case False
    from Cons.IH [OF False] Cons.prems False show ?thesis by simp
  qed
qed

lemma segments_elem:
  assumes "c \<noteq> CHR ''/''"
  shows "segments (c # cs) =
     takeWhile (\<lambda>c. c \<noteq> CHR ''/'') (c # cs) # segments (dropWhile (\<lambda>c. c \<noteq> CHR ''/'') (c # cs))"
proof -
  let ?e = "takeWhile (\<lambda>c. c \<noteq> CHR ''/'') (c # cs)"
  let ?r = "dropWhile (\<lambda>c. c \<noteq> CHR ''/'') (c # cs)"
  have e: "?e \<noteq> []" using assms by simp
  have "filter (\<lambda>seg. seg \<noteq> []) (case ?r of [] \<Rightarrow> [] | _ # t \<Rightarrow> pieces t) = segments ?r"
  proof (cases ?r)
    case Nil
    then show ?thesis by (simp only: list.case segments_Nil filter.simps)
  next
    case (Cons d t)
    then have "d = CHR ''/''" using hd_dropWhile [of "\<lambda>c. c \<noteq> CHR ''/''" "c # cs"] by auto
    with Cons show ?thesis by (simp only: list.case segments_slash) (simp add: segments_def)
  qed
  with e show ?thesis
    unfolding segments_def [of "c # cs"] pieces_elem [OF assms]
    by (simp only: filter.simps if_True not_False_eq_True simp_thms)
qed

lemma clean_loop_plain:
  "plain rest \<Longrightarrow> clean_loop rooted rest out dotdot = foldl (push rooted) out (segments rest)"
proof (induction rooted rest out dotdot rule: clean_loop.induct)
  case (1 rooted rest out dotdot)
  show ?case
  proof (cases rest)
    case Nil
    then show ?thesis by (subst clean_loop.simps) simp
  next
    case (Cons c cs)
    show ?thesis
    proof (cases "c = CHR ''/''")
      case True
      from "1.prems" have "plain cs" by (simp add: plain_def Cons True)
      from "1.IH"(1) [OF Cons True this] show ?thesis
        by (subst clean_loop.simps) (simp add: Cons True)
    next
      case False
      let ?e = "takeWhile (\<lambda>c. c \<noteq> CHR ''/'') rest"
      let ?r = "dropWhile (\<lambda>c. c \<noteq> CHR ''/'') rest"
      have seg: "segments rest = ?e # segments ?r"
        unfolding Cons by (rule segments_elem [OF False])
      with "1.prems" have e: "?e \<noteq> ''.''" "?e \<noteq> ''..''" and pr: "plain ?r"
        by (auto simp: plain_def)
      have nd: "\<not> (c = CHR ''.'' \<and> (cs = [] \<or> hd cs = CHR ''/''))"
      proof
        assume "c = CHR ''.'' \<and> (cs = [] \<or> hd cs = CHR ''/'')"
        then have "?e = ''.''" unfolding Cons by (cases cs) auto
        with e show False by simp
      qed
      have ndd: "\<not> (c = CHR ''.'' \<and> hd cs = CHR ''.'' \<and> (tl cs = [] \<or> hd (tl cs) = CHR ''/''))"
      proof
        assume a: "c = CHR ''.'' \<and> hd cs = CHR ''.'' \<and> (tl cs = [] \<or> hd (tl cs) = CHR ''/'')"
        show False
        proof (cases cs)
          case Nil
          with nd a show False by simp
        next
          case c2: (Cons d ds)
          with a have "?e = ''..''" unfolding Cons by (cases ds) auto
          with e show False by simp
        qed
      qed
      have step: "clean_loop rooted rest out dotdot = clean_loop rooted ?r (push rooted out ?e) dotdot"
        using False nd ndd by (subst clean_loop.simps) (auto simp: Cons Let_def push_def)
      from "1.IH"(6) [OF Cons False nd ndd refl pr] show ?thesis
        unfolding step seg by (simp add: push_def)
    qed
  qed
qed

lemma foldl_push_more:
  "out \<noteq> [] \<Longrightarrow> (rooted \<longrightarrow> length out \<noteq> 1) \<Longrightarrow>
   foldl (push rooted) out segs = out @ concat (map (\<lambda>seg. ''/'' @ seg) segs)"
proof (induction segs arbitrary: out)
  case Nil
  show ?case by simp
next
  case (Cons seg segs)
  have "push rooted out seg = out @ ''/'' @ seg" using Cons.prems by (auto simp: push_def)
  moreover have "foldl (push rooted) (out @ ''/'' @ seg) segs
      = (out @ ''/'' @ seg) @ concat (map (\<lambda>seg. ''/'' @ seg) segs)"
    using Cons.prems by (intro Cons.IH) auto
  ultimately show ?case by simp
qed

lemma strings_Join_slash:
  "strings_Join (seg # segs) ''/'' = seg @ concat (map (\<lambda>seg. ''/'' @ seg) segs)"
  by (induction segs arbitrary: seg) simp_all

lemma foldl_push_first:
  assumes "seg \<noteq> []"
  shows "foldl (push True) ''/'' (seg # segs) = ''/'' @ strings_Join (seg # segs) ''/''"
    and "foldl (push False) '''' (seg # segs) = strings_Join (seg # segs) ''/''"
proof -
  have "push True ''/'' seg = ''/'' @ seg" by (simp add: push_def)
  moreover have "foldl (push True) (''/'' @ seg) segs
      = (''/'' @ seg) @ concat (map (\<lambda>seg. ''/'' @ seg) segs)"
    using assms by (intro foldl_push_more) (cases seg, auto)
  ultimately show "foldl (push True) ''/'' (seg # segs) = ''/'' @ strings_Join (seg # segs) ''/''"
    by (simp add: strings_Join_slash)
  have "push False '''' seg = seg" by (simp add: push_def)
  moreover have "foldl (push False) seg segs = seg @ concat (map (\<lambda>seg. ''/'' @ seg) segs)"
    using assms by (intro foldl_push_more) auto
  ultimately show "foldl (push False) '''' (seg # segs) = strings_Join (seg # segs) ''/''"
    by (simp add: strings_Join_slash)
qed

text \<open>The second statement of \<open>Finalize\<close>: a slash is put before a path that has none.\<close>

definition absolute :: "string \<Rightarrow> string" where
  "absolute p = (if HasPrefix p ''/'' then p else ''/'' @ p)"

lemma HasPrefix_slash: "HasPrefix p ''/'' \<longleftrightarrow> p \<noteq> [] \<and> hd p = CHR ''/''"
  by (cases p) (simp_all add: HasPrefix_def)

lemma absolute_nodd: "nodd p \<Longrightarrow> nodd (absolute p)"
  by (cases p) (auto simp: absolute_def HasPrefix_slash)

lemma absolute_slash: "absolute p \<noteq> [] \<and> hd (absolute p) = CHR ''/''"
  by (simp add: absolute_def HasPrefix_slash)

lemma Finalize_absolute:
  "Service f = Some svc \<Longrightarrow>
   Finalize Root services f =
     Inr (f\<lparr>RequestPath :=
            absolute (Join [RootExpr.Path Root, ServiceExpr.Path (services svc), RequestPath f])\<rparr>)"
  by (simp add: Finalize_def absolute_def Let_def)

lemma segments_not_Nil: "seg \<in> set (segments p) \<Longrightarrow> seg \<noteq> []"
  by (simp add: segments_def)

lemma strings_Join_hd:
  "seg \<noteq> [] \<Longrightarrow> strings_Join (seg # segs) ''/'' \<noteq> [] \<and> hd (strings_Join (seg # segs) ''/'') = hd seg"
  by (simp add: strings_Join_slash)

lemma absolute_Clean_plain:
  assumes "p \<noteq> []" and "plain p"
  shows "absolute (Clean p) = ''/'' @ strings_Join (segments p) ''/''"
proof (cases "hd p = CHR ''/''")
  case True
  with assms obtain t where p: "p = CHR ''/'' # t" by (cases p) auto
  with assms have "plain t" by (simp add: plain_def)
  then have out: "clean_loop True t ''/'' 1 = foldl (push True) ''/'' (segments t)"
    by (rule clean_loop_plain)
  show ?thesis
  proof (cases "segments t")
    case Nil
    with out p show ?thesis by (simp add: Clean_def absolute_def HasPrefix_slash)
  next
    case (Cons seg segs)
    then have "seg \<noteq> []" using segments_not_Nil [of seg t] by simp
    from foldl_push_first(1) [OF this, of segs] out Cons p show ?thesis
      by (simp add: Clean_def absolute_def HasPrefix_slash)
  qed
next
  case False
  with assms obtain c cs where p: "p = c # cs" and c: "c \<noteq> CHR ''/''" by (cases p) auto
  let ?e = "takeWhile (\<lambda>c. c \<noteq> CHR ''/'') (c # cs)"
  let ?segs = "segments (dropWhile (\<lambda>c. c \<noteq> CHR ''/'') (c # cs))"
  have seg: "segments p = ?e # ?segs" unfolding p by (rule segments_elem [OF c])
  have e: "?e \<noteq> []" and he: "hd ?e = c" using c by simp_all
  have out: "clean_loop False p '''' 0 = strings_Join (?e # ?segs) ''/''"
    using clean_loop_plain [OF assms(2), of False "''''" 0] foldl_push_first(2) [OF e, of ?segs]
    by (simp add: seg)
  from strings_Join_hd [OF e, of ?segs] he c
  have "strings_Join (?e # ?segs) ''/'' \<noteq> []" and "hd (strings_Join (?e # ?segs) ''/'') \<noteq> CHR ''/''"
    by simp_all
  with out False assms(1) show ?thesis
    by (simp add: Clean_def absolute_def HasPrefix_slash seg Let_def)
qed

lemma segments_strings_Join: "segments (strings_Join es ''/'') = concat (map segments es)"
  by (induction es "''/''" rule: strings_Join.induct) (simp_all add: segments_append_slash)

lemma plain_strings_Join: "list_all plain es \<Longrightarrow> plain (strings_Join es ''/'')"
  by (auto simp: plain_def segments_strings_Join list_all_iff)

lemma strings_Join_not_Nil: "e \<noteq> [] \<Longrightarrow> strings_Join (e # elem) ''/'' \<noteq> []"
  by (cases elem) simp_all

lemma absolute_Join_plain:
  "list_all plain elem \<Longrightarrow>
   absolute (Join elem) = ''/'' @ strings_Join (concat (map segments elem)) ''/''"
proof (induction elem)
  case Nil
  show ?case by (simp add: absolute_def HasPrefix_slash)
next
  case (Cons e elem)
  show ?case
  proof (cases "e = []")
    case True
    with Cons show ?thesis by simp
  next
    case False
    from absolute_Clean_plain [OF strings_Join_not_Nil [OF False] plain_strings_Join [OF Cons.prems]]
    show ?thesis using False by (simp add: segments_strings_Join)
  qed
qed

lemma Finalize_nil_Service: "Service f = None \<Longrightarrow> Finalize Root services f = Inl NilDereference"
  by (simp add: Finalize_def)

text \<open>
  Claim C5. For a file server with an owning service, \<open>Finalize\<close> returns and sets
  \<open>RequestPath\<close> to \<open>path.Join\<close> of the root prefix, the service prefix and the
  declared request path, with a slash put in front when the join has none. The new request
  path begins with a slash and has no two adjacent slashes anywhere (so exactly one leading
  slash). When none of the three paths has a \<open>.\<close> or \<open>..\<close> element, it is the slash
  followed by all their segments, in this order, joined by single slashes.
\<close>

theorem Finalize_request_path:
  assumes "Service f = Some svc"
  shows "\<exists>p. Finalize Root services f = Inr (f\<lparr>RequestPath := p\<rparr>) \<and>
           p = absolute (Join [RootExpr.Path Root, ServiceExpr.Path (services svc), RequestPath f]) \<and>
           p \<noteq> [] \<and> hd p = CHR ''/'' \<and> \<not> (\<exists>u v. p = u @ ''//'' @ v) \<and>
           (plain (RootExpr.Path Root) \<and> plain (ServiceExpr.Path (services svc)) \<and>
            plain (RequestPath f) \<longrightarrow>
              p = ''/'' @ strings_Join (segments (RootExpr.Path Root) @
                                        segments (ServiceExpr.Path (services svc)) @
                                        segments (RequestPath f)) ''/'')"
proof -
  let ?elem = "[RootExpr.Path Root, ServiceExpr.Path (services svc), RequestPath f]"
  let ?p = "absolute (Join ?elem)"
  have "nodd ?p" by (intro absolute_nodd Join_nodd)
  then have 1: "\<not> (\<exists>u v. ?p = u @ ''//'' @ v)" by (simp add: nodd_iff)
  have 2: "plain (RootExpr.Path Root) \<and> plain (ServiceExpr.Path (services svc)) \<and>
            plain (RequestPath f) \<longrightarrow>
              ?p = ''/'' @ strings_Join (segments (RootExpr.Path Root) @
                                        segments (ServiceExpr.Path (services svc)) @
                                        segments (RequestPath f)) ''/''"
    using absolute_Join_plain [of ?elem] by simp
  from 1 2 Finalize_absolute [OF assms, of Root services] absolute_slash [of "Join ?elem"]
  show ?thesis by blast
qed

lemma Clean_example: "Clean ''/api/v1/assets'' = ''/api/v1/assets''"
  by code_simp

text \<open>The example of the specification: root prefix \<open>/api\<close>, service prefix \<open>v1\<close>, declared path \<open>assets\<close>.\<close>

definition api_root :: "unit RootExpr" where
  "api_root = empty_root\<lparr>RootExpr.Path := ''/api''\<rparr>"

definition v1_services :: "addr \<Rightarrow> unit ServiceExpr" where
  "v1_services a =
     \<lparr>Name = ''files'', Path = ''v1'', ParentName = '''', HTTPEndpoints = [], FileServers = []\<rparr>"

definition assets_server :: FileServerExpr where
  "assets_server =
     \<lparr>Service = Some 0, Description = '''', FilePath = ''public'', RequestPath = ''assets''\<rparr>"

lemma plain_examples: "plain ''/api''" "plain ''v1''" "plain ''assets''"
  by code_simp+

theorem Finalize_request_path_witness:
  "Service assets_server = Some 0 \<and>
   plain (RootExpr.Path api_root) \<and> plain (ServiceExpr.Path (v1_services 0)) \<and>
   plain (RequestPath assets_server) \<and>
   Finalize api_root v1_services assets_server
     = Inr (assets_server\<lparr>RequestPath := ''/api/v1/assets''\<rparr>)"
  using Finalize_request_path [of assets_server 0 api_root v1_services]
  by (simp add: Clean_example absolute_def HasPrefix_def api_root_def v1_services_def
      assets_server_def plain_examples empty_root_def)

end
